theory Spec2Isabelle
  imports Main
begin


section \<open>The token pool (pkg/sriov/token/pool.go)\<close>

subsection \<open>Data\<close>

text \<open>The four token states, in the order of the \<^verbatim>\<open>iota\<close> block.\<close>

datatype state = free | allocated | inUse | closed

text \<open>\<^verbatim>\<open>type token struct { id, name string; state state }\<close>\<close>

record token =
  tok_id :: string
  tok_name :: string
  tok_state :: state

text \<open>
  The pool keeps \<^verbatim>\<open>*token\<close> pointers in three indices, so one token object is shared by
  all of them. A pointer is an address into the list of token objects \<open>heap\<close>; the
  objects are created by \<open>NewPool\<close> only and never freed.
\<close>

type_synonym ptr = nat

text \<open>A listener is a \<^verbatim>\<open>func()\<close> value; only its identity matters to the pool.\<close>

type_synonym listener = nat

text \<open>
  \<^verbatim>\<open>type Pool struct\<close>. The mutex is not a field of the model: every public operation
  holds it from entry to return, so operations are atomic steps. \<open>spawned\<close> is not a
  field of the struct either: it logs the goroutines started by \<^verbatim>\<open>go listener()\<close>.
\<close>

record pool =
  heap :: "token list"
  tokens :: "string \<rightharpoonup> ptr"
  tokensByNames :: "string \<rightharpoonup> ptr list"
  closedTokens :: "string \<rightharpoonup> ptr list"
  listeners :: "listener list"
  dirty :: bool
  spawned :: "listener list"

text \<open>The errors of the pool, one constructor for each message format.\<close>

datatype error =
    AlreadyAccessed \<comment> \<open>token pool has already been accessed\<close>
  | TokenDoesntExist string \<comment> \<open>token doesn't exist: id\<close>
  | TokenIsClosed string string \<comment> \<open>token is closed: name:id\<close>
  | TokenIs state string string \<comment> \<open>token is state: name:id\<close>
  | TokenIsNotInUse string string state \<comment> \<open>token is not in use: name:id - state\<close>

text \<open>
  Modelled from the spec: the declaration of \<^verbatim>\<open>config.Config\<close> is not part of the
  sources at hand. A configuration is an ordered list of physical functions, each with
  its service domains, its capabilities and its virtual functions (of which \<open>NewPool\<close>
  uses the number only).
\<close>

record physicalFunction =
  ServiceDomains :: "string list"
  Capabilities :: "string list"
  VirtualFunctions :: "string list"

record config =
  PhysicalFunctions :: "physicalFunction list"

subsection \<open>Reading the indices\<close>

text \<open>Indexing a Go map of slices with a missing key yields the nil slice.\<close>

definition byName :: "pool \<Rightarrow> string \<Rightarrow> ptr list" where
  "byName p n = (case tokensByNames p n of None \<Rightarrow> [] | Some toks \<Rightarrow> toks)"

definition closedOf :: "pool \<Rightarrow> string \<Rightarrow> ptr list" where
  "closedOf p i = (case closedTokens p i of None \<Rightarrow> [] | Some toks \<Rightarrow> toks)"

definition setState :: "ptr \<Rightarrow> state \<Rightarrow> token list \<Rightarrow> token list" where
  "setState a st h = h[a := (h ! a)\<lparr>tok_state := st\<rparr>]"

subsection \<open>NewPool\<close>

text \<open>
  \<open>NewTokenID\<close> (package tools/tokens) and \<^verbatim>\<open>path.Join\<close> are parameters: \<open>newTokenID k\<close>
  is the identifier returned by call number \<open>k\<close>, which is the call that creates the
  token at address \<open>k\<close>.
\<close>

definition emptyPool :: pool where
  "emptyPool = \<lparr>heap = [], tokens = Map.empty, tokensByNames = Map.empty,
     closedTokens = Map.empty, listeners = [], dirty = False, spawned = []\<rparr>"

definition newToken :: "(nat \<Rightarrow> string) \<Rightarrow> string \<Rightarrow> pool \<Rightarrow> pool" where
  "newToken newTokenID nm p =
     (let a = length (heap p);
          tok = \<lparr>tok_id = newTokenID a, tok_name = nm, tok_state = free\<rparr>
      in p\<lparr>heap := heap p @ [tok],
            tokens := (tokens p)(tok_id tok \<mapsto> a),
            tokensByNames := (tokensByNames p)(tok_name tok \<mapsto> byName p (tok_name tok) @ [a])\<rparr>)"

text \<open>\<^verbatim>\<open>for i := 0; i < len(pfCfg.VirtualFunctions); i++\<close>\<close>

primrec vfLoop :: "(nat \<Rightarrow> string) \<Rightarrow> string \<Rightarrow> nat \<Rightarrow> pool \<Rightarrow> pool" where
  "vfLoop newTokenID nm 0 p = p"
| "vfLoop newTokenID nm (Suc k) p = vfLoop newTokenID nm k (newToken newTokenID nm p)"

definition pfLoop ::
  "(string \<Rightarrow> string \<Rightarrow> string) \<Rightarrow> (nat \<Rightarrow> string) \<Rightarrow> physicalFunction \<Rightarrow> pool \<Rightarrow> pool" where
  "pfLoop pathJoin newTokenID pfCfg p =
     fold (\<lambda>serviceDomain.
        fold (\<lambda>capability.
           vfLoop newTokenID (pathJoin serviceDomain capability)
             (length (VirtualFunctions pfCfg)))
          (Capabilities pfCfg))
       (ServiceDomains pfCfg) p"

definition NewPool ::
  "(string \<Rightarrow> string \<Rightarrow> string) \<Rightarrow> (nat \<Rightarrow> string) \<Rightarrow> config \<Rightarrow> pool" where
  "NewPool pathJoin newTokenID cfg =
     fold (pfLoop pathJoin newTokenID) (PhysicalFunctions cfg) emptyPool"

subsection \<open>Restore, AddListener, Tokens, Find\<close>

text \<open>
  \<^verbatim>\<open>for i := 0; i < len(ids) && i < len(toks); i++\<close>: the loop walks both slices
  together and stops at the end of the shorter one.
\<close>

definition restoreToken :: "string \<Rightarrow> ptr \<Rightarrow> pool \<Rightarrow> pool" where
  "restoreToken i a p =
     (let tok = heap p ! a;
          deleted = (tokens p)(tok_id tok := None);
          tok' = tok\<lparr>tok_id := i, tok_state := allocated\<rparr>
      in p\<lparr>heap := (heap p)[a := tok'], tokens := deleted(tok_id tok' \<mapsto> a)\<rparr>)"

fun restoreLoop :: "string list \<Rightarrow> ptr list \<Rightarrow> pool \<Rightarrow> pool" where
  "restoreLoop (i # ids) (a # toks) p = restoreLoop ids toks (restoreToken i a p)"
| "restoreLoop _ _ p = p"

definition restoreName :: "string \<times> string list \<Rightarrow> pool \<Rightarrow> pool" where
  "restoreName entry p =
     (case tokensByNames p (fst entry) of
        None \<Rightarrow> p
      | Some toks \<Rightarrow> restoreLoop (snd entry) toks p)"

text \<open>
  The argument is a Go map; the list gives its entries in the order in which
  \<^verbatim>\<open>range\<close> happens to visit them.
\<close>

definition Restore :: "pool \<Rightarrow> (string \<times> string list) list \<Rightarrow> error option \<times> pool" where
  "Restore p toks =
     (if dirty p then (Some AlreadyAccessed, p)
      else (None, fold restoreName toks (p\<lparr>dirty := True\<rparr>)))"

definition AddListener :: "pool \<Rightarrow> listener \<Rightarrow> pool" where
  "AddListener p l = p\<lparr>listeners := listeners p @ [l]\<rparr>"

definition Tokens :: "pool \<Rightarrow> (string \<rightharpoonup> (string \<rightharpoonup> bool)) \<times> pool" where
  "Tokens p =
     (let p = p\<lparr>dirty := True\<rparr>
      in (\<lambda>name. case tokensByNames p name of
            None \<Rightarrow> None
          | Some toks \<Rightarrow>
              Some (fold (\<lambda>a m. m(tok_id (heap p ! a) \<mapsto> tok_state (heap p ! a) \<noteq> closed))
                      toks Map.empty),
          p))"

definition find_tok :: "pool \<Rightarrow> string \<Rightarrow> error + ptr" where
  "find_tok p i = (case tokens p i of Some a \<Rightarrow> Inr a | None \<Rightarrow> Inl (TokenDoesntExist i))"

definition Find :: "pool \<Rightarrow> string \<Rightarrow> (error + string) \<times> pool" where
  "Find p i =
     (let p = p\<lparr>dirty := True\<rparr>
      in case find_tok p i of
           Inl err \<Rightarrow> (Inl err, p)
         | Inr a \<Rightarrow> (Inr (tok_name (heap p ! a)), p))"

subsection \<open>stopUsing, Allocate, Free\<close>

text \<open>\<^verbatim>\<open>for _, listener := range p.listeners { go listener() }\<close>\<close>

definition fire :: "pool \<Rightarrow> pool" where
  "fire p = p\<lparr>spawned := spawned p @ listeners p\<rparr>"

definition stopUsing :: "pool \<Rightarrow> string \<Rightarrow> error option \<times> pool" where
  "stopUsing p i =
     (case find_tok p i of
        Inl err \<Rightarrow> (Some err, p)
      | Inr a \<Rightarrow>
          let tok = heap p ! a in
          if tok_state tok \<noteq> inUse
          then (Some (TokenIsNotInUse (tok_name tok) (tok_id tok) (tok_state tok)), p)
          else
            let h = setState a allocated (heap p);
                h = fold (\<lambda>t. setState t free) (closedOf p (tok_id tok)) h
            in (None, fire (p\<lparr>heap := h,
                               closedTokens := (closedTokens p)(tok_id tok := None)\<rparr>)))"

definition StopUsing :: "pool \<Rightarrow> string \<Rightarrow> error option \<times> pool" where
  "StopUsing p i = stopUsing (p\<lparr>dirty := True\<rparr>) i"

definition Allocate :: "pool \<Rightarrow> string \<Rightarrow> error option \<times> pool" where
  "Allocate p i =
     (let p = p\<lparr>dirty := True\<rparr>
      in case find_tok p i of
           Inl err \<Rightarrow> (Some err, p)
         | Inr a \<Rightarrow>
             let tok = heap p ! a in
             (case tok_state tok of
                inUse \<Rightarrow> stopUsing p i
              | closed \<Rightarrow> (Some (TokenIsClosed (tok_name tok) (tok_id tok)), p)
              | _ \<Rightarrow> (None, p\<lparr>heap := setState a allocated (heap p)\<rparr>)))"

definition Free :: "pool \<Rightarrow> string \<Rightarrow> error option \<times> pool" where
  "Free p i =
     (let p = p\<lparr>dirty := True\<rparr>
      in case find_tok p i of
           Inl err \<Rightarrow> (Some err, p)
         | Inr a \<Rightarrow>
             (case tok_state (heap p ! a) of
                inUse \<Rightarrow>
                  let p = snd (stopUsing p i)
                  in (None, p\<lparr>heap := setState a free (heap p)\<rparr>)
              | closed \<Rightarrow> (None, p)
              | _ \<Rightarrow> (None, p\<lparr>heap := setState a free (heap p)\<rparr>)))"

subsection \<open>Use and findToClose\<close>

text \<open>A \<^verbatim>\<open>range\<close> loop over a slice of tokens that returns the first one in state \<open>st\<close>.\<close>

fun scan :: "token list \<Rightarrow> state \<Rightarrow> ptr list \<Rightarrow> ptr option" where
  "scan h st [] = None"
| "scan h st (a # toks) = (if tok_state (h ! a) = st then Some a else scan h st toks)"

definition findToClose :: "pool \<Rightarrow> string \<Rightarrow> ptr option" where
  "findToClose p n =
     (case scan (heap p) free (byName p n) of
        Some a \<Rightarrow> Some a
      | None \<Rightarrow> scan (heap p) allocated (byName p n))"

text \<open>The body of the loop over \<open>names\<close> in \<open>Use\<close>, for the token at address \<open>a\<close>.\<close>

definition closeFor :: "ptr \<Rightarrow> string \<Rightarrow> pool \<Rightarrow> pool" where
  "closeFor a n p =
     (let tok = heap p ! a in
      if n = tok_name tok then p
      else case findToClose p n of
             None \<Rightarrow> p
           | Some c \<Rightarrow>
               p\<lparr>heap := setState c closed (heap p),
                 closedTokens := (closedTokens p)(tok_id tok \<mapsto> closedOf p (tok_id tok) @ [c])\<rparr>)"

definition Use :: "pool \<Rightarrow> string \<Rightarrow> string list \<Rightarrow> error option \<times> pool" where
  "Use p i names =
     (let p = p\<lparr>dirty := True\<rparr>
      in case find_tok p i of
           Inl err \<Rightarrow> (Some err, p)
         | Inr a \<Rightarrow>
             let tok = heap p ! a in
             if tok_state tok = inUse \<or> tok_state tok = closed
             then (Some (TokenIs (tok_state tok) (tok_name tok) (tok_id tok)), p)
             else (None, fire (fold (closeFor a) names
                                 (p\<lparr>heap := setState a inUse (heap p)\<rparr>))))"

subsection \<open>Sequences of public operations\<close>

datatype call =
    CallRestore "(string \<times> string list) list"
  | CallAddListener listener
  | CallTokens
  | CallFind string
  | CallAllocate string
  | CallFree string
  | CallUse string "string list"
  | CallStopUsing string

fun exec :: "call \<Rightarrow> pool \<Rightarrow> pool" where
  "exec (CallRestore toks) p = snd (Restore p toks)"
| "exec (CallAddListener l) p = AddListener p l"
| "exec CallTokens p = snd (Tokens p)"
| "exec (CallFind i) p = snd (Find p i)"
| "exec (CallAllocate i) p = snd (Allocate p i)"
| "exec (CallFree i) p = snd (Free p i)"
| "exec (CallUse i names) p = snd (Use p i names)"
| "exec (CallStopUsing i) p = snd (StopUsing p i)"

definition run :: "pool \<Rightarrow> call list \<Rightarrow> pool" where
  "run p calls = fold exec calls p"

section \<open>The token client (package multitoken, Request and Close)\<close>

text \<open>
  The messages are those of the network service API; a nil map and a nil pointer are
  \<open>None\<close>.
\<close>

record connection =
  conn_id :: string
  conn_labels :: "(string \<rightharpoonup> string) option"

record mechanism =
  mech_type :: string
  mech_parameters :: "(string \<rightharpoonup> string) option"

record request =
  req_connection :: "connection option"
  req_mechanismPreferences :: "mechanism list"

definition sriovTokenLabel :: string where
  "sriovTokenLabel = ''sriovToken''"

definition serviceDomainLabel :: string where
  "serviceDomainLabel = ''serviceDomain''"

text \<open>
  Modelled from the spec: the value of \<^verbatim>\<open>common.DeviceTokenIDKey\<close> is declared in the
  API package; the spec names the parameter \<open>deviceTokenId\<close>.
\<close>

definition DeviceTokenIDKey :: string where
  "DeviceTokenIDKey = ''deviceTokenId''"

text \<open>
  Modelled from the spec: the type \<^verbatim>\<open>tokenConfig\<close> of the field \<^verbatim>\<open>config\<close> is not part of
  the sources at hand. It is the per-connection persisted configuration: \<open>get\<close> reads the
  entry of a connection (the empty string when there is none), \<open>assign\<close> picks a token
  identifier for a name (the empty string when none is free) and \<open>release\<close> gives the
  token of a connection back. The three are parameters over a state \<open>'c\<close>.
\<close>

record 'c tokenConfig =
  cfg_get :: "'c \<Rightarrow> connection option \<Rightarrow> string"
  cfg_assign :: "'c \<Rightarrow> string \<Rightarrow> connection option \<Rightarrow> string \<times> 'c"
  cfg_release :: "'c \<Rightarrow> connection option \<Rightarrow> 'c"

datatype 'e client_error =
    NoFreeToken string \<comment> \<open>no free token for the name: name\<close>
  | Downstream 'e

text \<open>
  A call either returns the pair \<^verbatim>\<open>(conn, err)\<close> or panics (a write to a nil map).
\<close>

datatype 'e outcome =
    Returns "connection option" "'e client_error option"
  | Panics

definition GetLabels :: "connection option \<Rightarrow> (string \<rightharpoonup> string) option" where
  "GetLabels conn = (case conn of None \<Rightarrow> None | Some cn \<Rightarrow> conn_labels cn)"

text \<open>\<^verbatim>\<open>strings.Split(tokenName, "/")[0]\<close>: the part before the first slash.\<close>

definition firstSegment :: "string \<Rightarrow> string" where
  "firstSegment tokenName = takeWhile (\<lambda>ch. ch \<noteq> CHR ''/'') tokenName"

definition setTokenID :: "string \<Rightarrow> mechanism \<Rightarrow> mechanism" where
  "setTokenID tokenID mech =
     (let params = (case mech_parameters mech of None \<Rightarrow> Map.empty | Some ps \<Rightarrow> ps)
      in mech\<lparr>mech_parameters := Some (params(DeviceTokenIDKey \<mapsto> tokenID))\<rparr>)"

text \<open>
  The request sent downstream once a token is assigned: a clone without the
  \<open>sriovToken\<close> label, with the \<open>serviceDomain\<close> label and with the token identifier in
  every mechanism preference. It is called on a request whose labels are not nil.
\<close>

definition translate :: "string \<Rightarrow> string \<Rightarrow> request \<Rightarrow> request" where
  "translate tokenName tokenID req =
     req\<lparr>req_connection :=
           map_option (\<lambda>cn. cn\<lparr>conn_labels :=
               map_option (\<lambda>ls. (ls(sriovTokenLabel := None))
                                   (serviceDomainLabel \<mapsto> firstSegment tokenName))
                 (conn_labels cn)\<rparr>)
             (req_connection req),
         req_mechanismPreferences := map (setTokenID tokenID) (req_mechanismPreferences req)\<rparr>"

text \<open>
  The end of \<open>Request\<close>, after the downstream call: \<open>request\<close> is the request that was
  sent, as the downstream elements left it.
\<close>

definition afterNext ::
  "'c tokenConfig \<Rightarrow> bool \<Rightarrow> string \<Rightarrow> string \<Rightarrow> 'c \<Rightarrow>
   request \<times> connection option \<times> 'e option \<Rightarrow> 'c \<times> 'e outcome" where
  "afterNext config isEstablished tokenID tokenName c answer =
     (case answer of (request, conn, err) \<Rightarrow>
        let c = (if err \<noteq> None \<and> tokenID \<noteq> '''' \<and> \<not> isEstablished
                 then cfg_release config c (req_connection request) else c)
        in if err = None \<and> tokenName \<noteq> ''''
           then (case GetLabels conn of
                   None \<Rightarrow> (c, Panics)
                 | Some ls \<Rightarrow>
                     (c, Returns
                        (map_option (\<lambda>cn. cn\<lparr>conn_labels :=
                            Some ((ls(serviceDomainLabel := None))(sriovTokenLabel \<mapsto> tokenName))\<rparr>)
                          conn)
                        None))
           else (c, Returns conn (map_option Downstream err)))"

text \<open>
  \<open>next\<close> is the rest of the chain: it answers with the request as it left it, the
  connection and the error.
\<close>

definition Request ::
  "'c tokenConfig \<Rightarrow> (request \<Rightarrow> request \<times> connection option \<times> 'e option) \<Rightarrow> 'c \<Rightarrow>
   request \<Rightarrow> 'c \<times> 'e outcome" where
  "Request config next c request =
     (let isEstablished = (cfg_get config c (req_connection request) \<noteq> '''')
      in case GetLabels (req_connection request) of
           None \<Rightarrow> afterNext config isEstablished '''' '''' c (next request)
         | Some labels \<Rightarrow>
             (case labels sriovTokenLabel of
                None \<Rightarrow> afterNext config isEstablished '''' '''' c (next request)
              | Some tokenName \<Rightarrow>
                  (case cfg_assign config c tokenName (req_connection request) of
                     (tokenID, c) \<Rightarrow>
                       if tokenID = '''' then (c, Returns None (Some (NoFreeToken tokenName)))
                       else afterNext config isEstablished tokenID tokenName c
                              (next (translate tokenName tokenID request)))))"

definition Close ::
  "'c tokenConfig \<Rightarrow> (connection option \<Rightarrow> 'r) \<Rightarrow> 'c \<Rightarrow> connection option \<Rightarrow> 'c \<times> 'r" where
  "Close config next c conn = (cfg_release config c conn, next conn)"

section \<open>Invariants of the pool\<close>

text \<open>
  What every pool built by \<open>NewPool\<close> and changed by public operations only satisfies:
  the index by identifier agrees with the identifiers stored in the tokens, the index by
  name lists valid tokens of that name, a closure list belongs to a token in use and
  holds closed tokens, closure lists do not overlap, every closed token is in one, and an
  untouched pool has free tokens only.
\<close>

definition inv_tokens :: "pool \<Rightarrow> bool" where
  "inv_tokens s \<longleftrightarrow>
     (\<forall>i a. tokens s i = Some a \<longrightarrow> a < length (heap s) \<and> tok_id (heap s ! a) = i)"

definition inv_names :: "pool \<Rightarrow> bool" where
  "inv_names s \<longleftrightarrow>
     (\<forall>n ts. tokensByNames s n = Some ts \<longrightarrow>
        distinct ts \<and> (\<forall>a \<in> set ts. a < length (heap s) \<and> tok_name (heap s ! a) = n))"

definition inv_closed :: "pool \<Rightarrow> bool" where
  "inv_closed s \<longleftrightarrow>
     (\<forall>i cs. closedTokens s i = Some cs \<longrightarrow>
        distinct cs \<and>
        (\<exists>a. tokens s i = Some a \<and> tok_state (heap s ! a) = inUse) \<and>
        (\<forall>c \<in> set cs. c < length (heap s) \<and> tok_state (heap s ! c) = closed))"

definition inv_disj :: "pool \<Rightarrow> bool" where
  "inv_disj s \<longleftrightarrow>
     (\<forall>i i' cs cs'. closedTokens s i = Some cs \<longrightarrow> closedTokens s i' = Some cs' \<longrightarrow>
        i \<noteq> i' \<longrightarrow> set cs \<inter> set cs' = {})"

definition inv_owned :: "pool \<Rightarrow> bool" where
  "inv_owned s \<longleftrightarrow>
     (\<forall>c < length (heap s). tok_state (heap s ! c) = closed \<longrightarrow>
        (\<exists>i cs. closedTokens s i = Some cs \<and> c \<in> set cs))"

definition inv_dirty :: "pool \<Rightarrow> bool" where
  "inv_dirty s \<longleftrightarrow>
     (\<not> dirty s \<longrightarrow> (\<forall>a < length (heap s). tok_state (heap s ! a) = free))"

definition wf :: "pool \<Rightarrow> bool" where
  "wf s \<longleftrightarrow> inv_tokens s \<and> inv_names s \<and> inv_closed s \<and> inv_disj s \<and> inv_owned s \<and> inv_dirty s"

text \<open>The loop invariant of \<open>Use\<close> for the token at address \<open>a\<close>.\<close>

definition holding :: "ptr \<Rightarrow> pool \<Rightarrow> bool" where
  "holding a s \<longleftrightarrow> wf s \<and> dirty s \<and> tokens s (tok_id (heap s ! a)) = Some a \<and>
     tok_state (heap s ! a) = inUse"

text \<open>The loop invariant of \<open>Restore\<close>, and that of \<open>NewPool\<close>.\<close>

definition unused :: "pool \<Rightarrow> bool" where
  "unused s \<longleftrightarrow> inv_tokens s \<and> inv_names s \<and> closedTokens s = Map.empty \<and>
     (\<forall>b < length (heap s). tok_state (heap s ! b) = free \<or> tok_state (heap s ! b) = allocated)"

definition initial :: "pool \<Rightarrow> bool" where
  "initial s \<longleftrightarrow> inv_tokens s \<and> inv_names s \<and> closedTokens s = Map.empty \<and>
     listeners s = [] \<and> spawned s = [] \<and> \<not> dirty s \<and>
     (\<forall>b < length (heap s). tok_state (heap s ! b) = free)"

section \<open>Auxiliary notions and example inputs\<close>

text \<open>
  The tokens of name \<open>n\<close> that are closed and listed in the closure list of the
  identifier \<open>i\<close>.
\<close>

definition closedSiblings :: "pool \<Rightarrow> string \<Rightarrow> string \<Rightarrow> ptr list" where
  "closedSiblings p i n =
     filter (\<lambda>c. tok_name (heap p ! c) = n \<and> tok_state (heap p ! c) = closed) (closedOf p i)"

definition isAddListener :: "call \<Rightarrow> bool" where
  "isAddListener c = (case c of CallAddListener l \<Rightarrow> True | _ \<Rightarrow> False)"

text \<open>
  An example pool: one physical function with two virtual functions, one service
  domain and two capabilities, hence two tokens under each of the names \<open>d/a\<close> and
  \<open>d/b\<close>. \<^verbatim>\<open>path.Join\<close> of two plain segments puts a slash between them; the identifiers
  are \<open>t\<close>, \<open>tt\<close>, \<open>ttt\<close>, ...
\<close>

definition pathJoin2 :: "string \<Rightarrow> string \<Rightarrow> string" where
  "pathJoin2 d c = d @ ''/'' @ c"

definition tokenIDs :: "nat \<Rightarrow> string" where
  "tokenIDs k = replicate (Suc k) (CHR ''t'')"

definition cfg22 :: config where
  "cfg22 = \<lparr>PhysicalFunctions =
     [\<lparr>ServiceDomains = [''d''], Capabilities = [''a'', ''b''],
       VirtualFunctions = [''0000:01:00.1'', ''0000:01:00.2'']\<rparr>]\<rparr>"

definition pool22 :: pool where
  "pool22 = NewPool pathJoin2 tokenIDs cfg22"

definition used22 :: pool where
  "used22 = run pool22 [CallUse ''t'' [''d/a'', ''d/b'']]"

text \<open>The example pool with both tokens of \<open>d/b\<close> allocated.\<close>

definition granted22 :: pool where
  "granted22 = run pool22 [CallAllocate ''ttt'', CallAllocate ''tttt'']"

text \<open>
  An example configuration store for the token client: the entry of a connection is
  kept under its identifier, \<open>assign\<close> returns the entry when there is one and makes
  one otherwise, \<open>release\<close> deletes it. \<open>refusing\<close> is a chain that fails, \<open>request1\<close> a
  request with the \<open>sriovToken\<close> label.
\<close>

definition mapConfig :: "(string \<rightharpoonup> string) tokenConfig" where
  "mapConfig =
     \<lparr>cfg_get = (\<lambda>c conn. case conn of None \<Rightarrow> ''''
                  | Some cn \<Rightarrow> (case c (conn_id cn) of None \<Rightarrow> '''' | Some t \<Rightarrow> t)),
      cfg_assign = (\<lambda>c name conn. case conn of None \<Rightarrow> ('''', c)
                  | Some cn \<Rightarrow> (case c (conn_id cn) of
                        Some t \<Rightarrow> (t, c)
                      | None \<Rightarrow> (''id-'' @ name, c(conn_id cn \<mapsto> ''id-'' @ name)))),
      cfg_release = (\<lambda>c conn. case conn of None \<Rightarrow> c | Some cn \<Rightarrow> c(conn_id cn := None))\<rparr>"

definition refusing :: "request \<Rightarrow> request \<times> connection option \<times> string option" where
  "refusing req = (req, None, Some ''refused'')"

definition request1 :: request where
  "request1 = \<lparr>req_connection =
       Some \<lparr>conn_id = ''c1'', conn_labels = Some [sriovTokenLabel \<mapsto> ''d/a'']\<rparr>,
     req_mechanismPreferences = [\<lparr>mech_type = ''KERNEL'', mech_parameters = None\<rparr>]\<rparr>"

text \<open>The example pool with both tokens of \<open>d/b\<close> in use, each under its own name only.\<close>

definition busy22 :: pool where
  "busy22 = run pool22 [CallUse ''ttt'' [''d/b''], CallUse ''tttt'' [''d/b'']]"

section \<open>The pool operations keep the invariants\<close>

lemma length_setState [simp]: "length (setState a st h) = length h"
  by (simp add: setState_def)

lemma id_setState [simp]: "tok_id (setState a st h ! b) = tok_id (h ! b)"
  by (cases "a < length h") (auto simp: setState_def nth_list_update list_update_beyond)

lemma name_setState [simp]: "tok_name (setState a st h ! b) = tok_name (h ! b)"
  by (cases "a < length h") (auto simp: setState_def nth_list_update list_update_beyond)

lemma state_setState:
  "tok_state (setState a st h ! b) = (if b = a \<and> a < length h then st else tok_state (h ! b))"
  by (cases "a < length h") (auto simp: setState_def nth_list_update list_update_beyond)

lemma length_fold_setState [simp]: "length (fold (\<lambda>t. setState t st) cs h) = length h"
  by (induction cs arbitrary: h) auto

lemma id_fold_setState [simp]: "tok_id (fold (\<lambda>t. setState t st) cs h ! b) = tok_id (h ! b)"
  by (induction cs arbitrary: h) auto

lemma name_fold_setState [simp]:
  "tok_name (fold (\<lambda>t. setState t st) cs h ! b) = tok_name (h ! b)"
  by (induction cs arbitrary: h) auto

lemma state_fold_setState:
  "tok_state (fold (\<lambda>t. setState t st) cs h ! b) =
     (if b \<in> set cs \<and> b < length h then st else tok_state (h ! b))"
  by (induction cs arbitrary: h) (auto simp: state_setState)

lemma find_tok_Some: "tokens s i = Some a \<Longrightarrow> find_tok s i = Inr a"
  by (simp add: find_tok_def)

lemma find_tok_None: "tokens s i = None \<Longrightarrow> find_tok s i = Inl (TokenDoesntExist i)"
  by (simp add: find_tok_def)

lemma find_tok_dirty [simp]: "find_tok (s\<lparr>dirty := d\<rparr>) i = find_tok s i"
  by (simp add: find_tok_def)

lemma closedOf_dirty [simp]: "closedOf (s\<lparr>dirty := d\<rparr>) i = closedOf s i"
  by (simp add: closedOf_def)

text \<open>marking the pool as touched\<close>

lemma wf_dirty: "wf s \<Longrightarrow> wf (s\<lparr>dirty := True\<rparr>)"
  by (simp add: wf_def inv_tokens_def inv_names_def inv_closed_def inv_disj_def inv_owned_def
      inv_dirty_def)

lemma wf_listeners: "wf s \<Longrightarrow> wf (s\<lparr>listeners := l\<rparr>)"
  by (simp add: wf_def inv_tokens_def inv_names_def inv_closed_def inv_disj_def inv_owned_def
      inv_dirty_def)

lemma wf_fire: "wf s \<Longrightarrow> wf (fire s)"
  by (simp add: fire_def wf_def inv_tokens_def inv_names_def inv_closed_def inv_disj_def
      inv_owned_def inv_dirty_def)

text \<open>moving a token that is neither in use nor closed to a state other than closed\<close>

lemma wf_setState_plain:
  assumes "wf s" "dirty s" "tok_state (heap s ! a) \<noteq> inUse" "tok_state (heap s ! a) \<noteq> closed"
    "st \<noteq> closed"
  shows "wf (s\<lparr>heap := setState a st (heap s)\<rparr>)"
proof -
  have 1: "inv_tokens (s\<lparr>heap := setState a st (heap s)\<rparr>)"
    using assms by (simp add: wf_def inv_tokens_def)
  have 2: "inv_names (s\<lparr>heap := setState a st (heap s)\<rparr>)"
    using assms by (simp add: wf_def inv_names_def)
  have 3: "inv_closed (s\<lparr>heap := setState a st (heap s)\<rparr>)"
    using assms unfolding wf_def inv_closed_def
    by (simp add: state_setState) metis
  have 4: "inv_disj (s\<lparr>heap := setState a st (heap s)\<rparr>)"
    using assms by (simp add: wf_def inv_disj_def)
  have 5: "inv_owned (s\<lparr>heap := setState a st (heap s)\<rparr>)"
    using assms unfolding wf_def inv_owned_def
    by (simp add: state_setState)
  have 6: "inv_dirty (s\<lparr>heap := setState a st (heap s)\<rparr>)"
    using assms by (simp add: inv_dirty_def)
  from 1 2 3 4 5 6 show ?thesis by (simp add: wf_def)
qed

subsection \<open>stopUsing\<close>

lemma stopUsing_inUse:
  assumes "tokens s i = Some a" "tok_state (heap s ! a) = inUse"
  shows "stopUsing s i =
    (None, fire (s\<lparr>heap := fold (\<lambda>t. setState t free) (closedOf s (tok_id (heap s ! a)))
                            (setState a allocated (heap s)),
                   closedTokens := (closedTokens s)(tok_id (heap s ! a) := None)\<rparr>))"
  using assms by (simp add: stopUsing_def find_tok_def Let_def)

lemma stopUsing_notInUse:
  assumes "tokens s i = Some a" "tok_state (heap s ! a) \<noteq> inUse"
  shows "stopUsing s i =
    (Some (TokenIsNotInUse (tok_name (heap s ! a)) (tok_id (heap s ! a)) (tok_state (heap s ! a))), s)"
  using assms by (simp add: stopUsing_def find_tok_def Let_def)

lemma stopUsing_unknown:
  assumes "tokens s i = None"
  shows "stopUsing s i = (Some (TokenDoesntExist i), s)"
  using assms by (simp add: stopUsing_def find_tok_def)

lemma closedOf_members:
  assumes "inv_closed s" "c \<in> set (closedOf s i)"
  shows "c < length (heap s) \<and> tok_state (heap s ! c) = closed"
proof (cases "closedTokens s i")
  case None
  with assms show ?thesis by (simp add: closedOf_def)
next
  case (Some cs)
  with assms show ?thesis unfolding inv_closed_def closedOf_def by fastforce
qed

lemma wf_released:
  assumes wf: "wf s" and d: "dirty s" and t: "tokens s i = Some a"
    and u: "tok_state (heap s ! a) = inUse"
  shows "wf (s\<lparr>heap := fold (\<lambda>t. setState t free) (closedOf s i) (setState a allocated (heap s)),
               closedTokens := (closedTokens s)(i := None)\<rparr>)"
    (is "wf ?s'")
proof -
  from wf have it: "inv_tokens s" and inm: "inv_names s" and ic: "inv_closed s"
    and idj: "inv_disj s" and io: "inv_owned s"
    by (simp_all add: wf_def)
  let ?h' = "fold (\<lambda>t. setState t free) (closedOf s i) (setState a allocated (heap s))"
  have hs: "heap ?s' = ?h'" by simp
  have st': "\<And>b. tok_state (?h' ! b) =
      (if b \<in> set (closedOf s i) then free else if b = a then allocated else tok_state (heap s ! b))"
    using closedOf_members[OF ic] it t
    by (auto simp: state_fold_setState state_setState inv_tokens_def)
  have 1: "inv_tokens ?s'"
    using it by (simp add: inv_tokens_def)
  have 2: "inv_names ?s'"
    using inm by (simp add: inv_names_def)
  have 3: "inv_closed ?s'"
    unfolding inv_closed_def
  proof (intro allI impI)
    fix k cs assume "closedTokens ?s' k = Some cs"
    then have k: "k \<noteq> i" and e: "closedTokens s k = Some cs"
      by (auto split: if_splits)
    from ic e obtain b where b: "distinct cs" "tokens s k = Some b" "tok_state (heap s ! b) = inUse"
      and m: "\<forall>c \<in> set cs. c < length (heap s) \<and> tok_state (heap s ! c) = closed"
      unfolding inv_closed_def by blast
    have "b \<noteq> a" using it t b(2) k by (auto simp: inv_tokens_def)
    moreover have "b \<notin> set (closedOf s i)"
      using closedOf_members[OF ic, of b i] b(3) by auto
    ultimately have "tok_state (heap ?s' ! b) = inUse"
      using b(3) by (simp only: hs st' if_False)
    moreover have "\<forall>c \<in> set cs. c < length (heap ?s') \<and> tok_state (heap ?s' ! c) = closed"
    proof
      fix c assume c: "c \<in> set cs"
      have "c \<notin> set (closedOf s i)"
      proof (cases "closedTokens s i")
        case None then show ?thesis by (simp add: closedOf_def)
      next
        case (Some ci)
        with idj e k have "set cs \<inter> set ci = {}" unfolding inv_disj_def by blast
        with c Some show ?thesis by (auto simp: closedOf_def)
      qed
      moreover have "c \<noteq> a" using m c u by auto
      ultimately have "tok_state (heap ?s' ! c) = tok_state (heap s ! c)"
        by (simp only: hs st' if_False)
      with m c show "c < length (heap ?s') \<and> tok_state (heap ?s' ! c) = closed" by simp
    qed
    ultimately show "distinct cs \<and>
        (\<exists>a. tokens ?s' k = Some a \<and> tok_state (heap ?s' ! a) = inUse) \<and>
        (\<forall>c \<in> set cs. c < length (heap ?s') \<and> tok_state (heap ?s' ! c) = closed)"
      using b(1,2) by auto
  qed
  have 4: "inv_disj ?s'"
    using idj unfolding inv_disj_def by (auto split: if_splits)
  have 5: "inv_owned ?s'"
    unfolding inv_owned_def
  proof (intro allI impI)
    fix c assume lt: "c < length (heap ?s')" and cl: "tok_state (heap ?s' ! c) = closed"
    from cl have nc: "c \<notin> set (closedOf s i)" and old: "tok_state (heap s ! c) = closed"
      by (auto simp: st' split: if_splits)
    from io lt old obtain k cs where k: "closedTokens s k = Some cs" "c \<in> set cs"
      unfolding inv_owned_def by auto
    with nc have "k \<noteq> i" by (auto simp: closedOf_def)
    with k show "\<exists>k cs. closedTokens ?s' k = Some cs \<and> c \<in> set cs" by auto
  qed
  have 6: "inv_dirty ?s'"
    using d by (simp add: inv_dirty_def)
  from 1 2 3 4 5 6 show ?thesis by (simp add: wf_def)
qed

lemma wf_tokens_id: "wf s \<Longrightarrow> tokens s i = Some a \<Longrightarrow> tok_id (heap s ! a) = i"
  by (simp add: wf_def inv_tokens_def)

lemma wf_tokens_valid: "wf s \<Longrightarrow> tokens s i = Some a \<Longrightarrow> a < length (heap s)"
  by (simp add: wf_def inv_tokens_def)

lemma wf_stopUsing:
  assumes "wf s" "dirty s"
  shows "wf (snd (stopUsing s i))"
proof (cases "tokens s i")
  case None
  with assms show ?thesis by (simp add: stopUsing_unknown)
next
  case (Some a)
  show ?thesis
  proof (cases "tok_state (heap s ! a) = inUse")
    case True
    from wf_released[OF assms Some True] show ?thesis
      by (simp add: stopUsing_inUse[OF Some True] wf_tokens_id[OF assms(1) Some] wf_fire)
  next
    case False
    with assms Some show ?thesis by (simp add: stopUsing_notInUse)
  qed
qed

subsection \<open>Allocate, Free, StopUsing\<close>

lemma wf_StopUsing: "wf s \<Longrightarrow> wf (snd (StopUsing s i))"
  by (simp add: StopUsing_def wf_stopUsing wf_dirty)

lemma stopUsing_inUse_state:
  assumes "wf s" "tokens s i = Some a" "tok_state (heap s ! a) = inUse"
  shows "tok_state (heap (snd (stopUsing s i)) ! a) = allocated"
proof -
  have "a \<notin> set (closedOf s i)"
    using closedOf_members[of s a i] assms by (auto simp: wf_def)
  then show ?thesis
    using assms
    by (simp add: stopUsing_inUse wf_tokens_id fire_def state_fold_setState state_setState
        wf_tokens_valid)
qed

lemma stopUsing_tokens [simp]: "tokens (snd (stopUsing s i)) = tokens s"
  by (simp add: stopUsing_def fire_def Let_def split: sum.splits)

lemma stopUsing_dirty [simp]: "dirty (snd (stopUsing s i)) = dirty s"
  by (simp add: stopUsing_def fire_def Let_def split: sum.splits)

lemma wf_Allocate: "wf s \<Longrightarrow> wf (snd (Allocate s i))"
proof -
  assume wf: "wf s"
  let ?s = "s\<lparr>dirty := True\<rparr>"
  have w: "wf ?s" using wf by (rule wf_dirty)
  show ?thesis
  proof (cases "tokens s i")
    case None
    then show ?thesis using w by (simp add: Allocate_def find_tok_def)
  next
    case (Some a)
    show ?thesis
    proof (cases "tok_state (heap s ! a)")
      case inUse
      then show ?thesis using Some wf_stopUsing[OF w, of i]
        by (simp add: Allocate_def find_tok_def)
    next
      case closed
      then show ?thesis using Some w by (simp add: Allocate_def find_tok_def Let_def)
    next
      case free
      then show ?thesis using Some wf_setState_plain[OF w, of a allocated]
        by (simp add: Allocate_def find_tok_def)
    next
      case allocated
      then show ?thesis using Some wf_setState_plain[OF w, of a allocated]
        by (simp add: Allocate_def find_tok_def)
    qed
  qed
qed

lemma wf_Free: "wf s \<Longrightarrow> wf (snd (Free s i))"
proof -
  assume wf: "wf s"
  let ?s = "s\<lparr>dirty := True\<rparr>"
  have w: "wf ?s" using wf by (rule wf_dirty)
  show ?thesis
  proof (cases "tokens s i")
    case None
    then show ?thesis using w by (simp add: Free_def find_tok_def)
  next
    case (Some a)
    show ?thesis
    proof (cases "tok_state (heap s ! a)")
      case inUse
      let ?t = "snd (stopUsing ?s i)"
      have wt: "wf ?t" using wf_stopUsing[OF w] by simp
      have "tok_state (heap ?t ! a) = allocated"
        using stopUsing_inUse_state[OF w, of i a] Some inUse by simp
      then have "wf (?t\<lparr>heap := setState a free (heap ?t)\<rparr>)"
        using wf_setState_plain[OF wt, of a free] by simp
      then show ?thesis using Some inUse
        by (simp add: Free_def find_tok_def Let_def)
    next
      case closed
      then show ?thesis using Some w by (simp add: Free_def find_tok_def)
    next
      case free
      then show ?thesis using Some wf_setState_plain[OF w, of a free]
        by (simp add: Free_def find_tok_def)
    next
      case allocated
      then show ?thesis using Some wf_setState_plain[OF w, of a free]
        by (simp add: Free_def find_tok_def)
    qed
  qed
qed

subsection \<open>Use\<close>

lemma scan_Some: "scan h st ts = Some c \<Longrightarrow> c \<in> set ts \<and> tok_state (h ! c) = st"
  by (induction ts) (auto split: if_splits)

lemma scan_None: "scan h st ts = None \<longleftrightarrow> (\<forall>c \<in> set ts. tok_state (h ! c) \<noteq> st)"
  by (induction ts) auto

lemma findToClose_Some:
  assumes "findToClose s n = Some c"
  shows "c \<in> set (byName s n) \<and> (tok_state (heap s ! c) = free \<or> tok_state (heap s ! c) = allocated)"
  using assms scan_Some[of "heap s" _ "byName s n" c]
  by (auto simp: findToClose_def split: option.splits)

lemma byName_members:
  assumes "inv_names s" "c \<in> set (byName s n)"
  shows "c < length (heap s) \<and> tok_name (heap s ! c) = n"
proof (cases "tokensByNames s n")
  case None
  with assms show ?thesis by (simp add: byName_def)
next
  case (Some ts)
  with assms show ?thesis unfolding inv_names_def byName_def by fastforce
qed

lemma wf_closed:
  assumes wf: "wf s" and d: "dirty s" and t: "tokens s i = Some a"
    and u: "tok_state (heap s ! a) = inUse"
    and c: "c < length (heap s)" "tok_state (heap s ! c) = free \<or> tok_state (heap s ! c) = allocated"
  shows "wf (s\<lparr>heap := setState c closed (heap s),
               closedTokens := (closedTokens s)(i \<mapsto> closedOf s i @ [c])\<rparr>)"
    (is "wf ?s'")
proof -
  from wf have it: "inv_tokens s" and inm: "inv_names s" and ic: "inv_closed s"
    and idj: "inv_disj s" and io: "inv_owned s"
    by (simp_all add: wf_def)
  have notin: "\<And>k cs. closedTokens s k = Some cs \<Longrightarrow> c \<notin> set cs"
    using ic c(2) unfolding inv_closed_def by fastforce
  have notin': "c \<notin> set (closedOf s i)"
    using closedOf_members[OF ic, of c i] c(2) by auto
  have 1: "inv_tokens ?s'"
    using it by (simp add: inv_tokens_def)
  have 2: "inv_names ?s'"
    using inm by (simp add: inv_names_def)
  have 3: "inv_closed ?s'"
    unfolding inv_closed_def
  proof (intro allI impI)
    fix k cs assume e: "closedTokens ?s' k = Some cs"
    show "distinct cs \<and>
        (\<exists>a. tokens ?s' k = Some a \<and> tok_state (heap ?s' ! a) = inUse) \<and>
        (\<forall>c \<in> set cs. c < length (heap ?s') \<and> tok_state (heap ?s' ! c) = closed)"
    proof (cases "k = i")
      case True
      with e have cs: "cs = closedOf s i @ [c]" by simp
      have "distinct (closedOf s i)"
        using ic by (auto simp: inv_closed_def closedOf_def split: option.splits)
      moreover have "a \<noteq> c" using u c(2) by auto
      ultimately show ?thesis
        using cs True t u c(1) notin' closedOf_members[OF ic, of _ i]
        by (auto simp: state_setState)
    next
      case False
      with e have old: "closedTokens s k = Some cs" by simp
      from ic old obtain b where b: "distinct cs" "tokens s k = Some b"
        "tok_state (heap s ! b) = inUse"
        and m: "\<forall>c \<in> set cs. c < length (heap s) \<and> tok_state (heap s ! c) = closed"
        unfolding inv_closed_def by blast
      have "b \<noteq> c" using b(3) c(2) by auto
      then show ?thesis using b m by (auto simp: state_setState)
    qed
  qed
  have 4: "inv_disj ?s'"
    unfolding inv_disj_def
  proof (intro allI impI)
    fix k k' cs cs'
    assume e: "closedTokens ?s' k = Some cs" "closedTokens ?s' k' = Some cs'" "k \<noteq> k'"
    have dj: "\<And>k cs. k \<noteq> i \<Longrightarrow> closedTokens s k = Some cs \<Longrightarrow> set cs \<inter> set (closedOf s i) = {}"
    proof -
      fix k cs assume k: "k \<noteq> i" "closedTokens s k = Some cs"
      show "set cs \<inter> set (closedOf s i) = {}"
      proof (cases "closedTokens s i")
        case None
        then show ?thesis by (simp add: closedOf_def)
      next
        case (Some ci)
        with idj k have "set cs \<inter> set ci = {}" unfolding inv_disj_def by blast
        with Some show ?thesis by (simp add: closedOf_def)
      qed
    qed
    show "set cs \<inter> set cs' = {}"
    proof (cases "k = i")
      case True
      with e have "cs = closedOf s i @ [c]" "closedTokens s k' = Some cs'" "k' \<noteq> i" by auto
      then show ?thesis using dj[of k' cs'] notin[of k' cs'] by auto
    next
      case False
      show ?thesis
      proof (cases "k' = i")
        case True
        with e False have "cs' = closedOf s i @ [c]" "closedTokens s k = Some cs" by auto
        then show ?thesis using dj[of k cs] notin[of k cs] False by auto
      next
        case k': False
        with e False have "closedTokens s k = Some cs" "closedTokens s k' = Some cs'" by auto
        with idj e(3) show ?thesis unfolding inv_disj_def by blast
      qed
    qed
  qed
  have 5: "inv_owned ?s'"
    unfolding inv_owned_def
  proof (intro allI impI)
    fix x assume lt: "x < length (heap ?s')" and cl: "tok_state (heap ?s' ! x) = closed"
    show "\<exists>k cs. closedTokens ?s' k = Some cs \<and> x \<in> set cs"
    proof (cases "x = c")
      case True
      then show ?thesis by auto
    next
      case False
      with cl have "tok_state (heap s ! x) = closed" by (simp add: state_setState)
      with io lt obtain k cs where k: "closedTokens s k = Some cs" "x \<in> set cs"
        unfolding inv_owned_def by auto
      show ?thesis
      proof (cases "k = i")
        case True
        with k have "x \<in> set (closedOf s i @ [c])" by (simp add: closedOf_def)
        then show ?thesis by (intro exI[of _ i]) auto
      next
        case False
        with k show ?thesis by (intro exI[of _ k]) auto
      qed
    qed
  qed
  have 6: "inv_dirty ?s'"
    using d by (simp add: inv_dirty_def)
  from 1 2 3 4 5 6 show ?thesis by (simp add: wf_def)
qed

lemma holding_closeFor:
  assumes "holding a s"
  shows "holding a (closeFor a n s)"
proof (cases "n = tok_name (heap s ! a)")
  case True
  with assms show ?thesis by (simp add: closeFor_def)
next
  case False
  show ?thesis
  proof (cases "findToClose s n")
    case None
    with assms False show ?thesis by (simp add: closeFor_def)
  next
    case (Some c)
    from assms have wf: "wf s" and d: "dirty s" and t: "tokens s (tok_id (heap s ! a)) = Some a"
      and u: "tok_state (heap s ! a) = inUse"
      by (simp_all add: holding_def)
    from findToClose_Some[OF Some] have c: "c \<in> set (byName s n)"
      "tok_state (heap s ! c) = free \<or> tok_state (heap s ! c) = allocated" by auto
    from byName_members[OF _ c(1)] wf have lt: "c < length (heap s)" by (simp add: wf_def)
    have ne: "a \<noteq> c" using u c(2) by auto
    have "wf (s\<lparr>heap := setState c closed (heap s),
               closedTokens := (closedTokens s)(tok_id (heap s ! a) \<mapsto>
                  closedOf s (tok_id (heap s ! a)) @ [c])\<rparr>)"
      by (rule wf_closed[OF wf d t u lt c(2)])
    then show ?thesis
      using False Some d t u ne
      by (simp add: closeFor_def holding_def Let_def state_setState)
  qed
qed

lemma holding_fold_closeFor: "holding a s \<Longrightarrow> holding a (fold (closeFor a) names s)"
  by (induction names arbitrary: s) (auto simp: holding_closeFor)

lemma wf_Use: "wf s \<Longrightarrow> wf (snd (Use s i names))"
proof -
  assume wf: "wf s"
  let ?s = "s\<lparr>dirty := True\<rparr>"
  have w: "wf ?s" using wf by (rule wf_dirty)
  show ?thesis
  proof (cases "tokens s i")
    case None
    then show ?thesis using w by (simp add: Use_def find_tok_def)
  next
    case (Some a)
    show ?thesis
    proof (cases "tok_state (heap s ! a) = inUse \<or> tok_state (heap s ! a) = closed")
      case True
      then show ?thesis using Some w by (auto simp add: Use_def find_tok_def Let_def)
    next
      case False
      let ?t = "?s\<lparr>heap := setState a inUse (heap ?s)\<rparr>"
      have "wf ?t" using wf_setState_plain[OF w, of a inUse] False by simp
      moreover have "a < length (heap s)" using wf Some by (rule wf_tokens_valid)
      moreover have "tok_id (heap s ! a) = i" using wf Some by (rule wf_tokens_id)
      ultimately have "holding a ?t"
        using Some by (simp add: holding_def state_setState)
      then have "holding a (fold (closeFor a) names ?t)" by (rule holding_fold_closeFor)
      then have "wf (fire (fold (closeFor a) names ?t))" by (simp add: holding_def wf_fire)
      then show ?thesis using Some False by (simp add: Use_def find_tok_def Let_def)
    qed
  qed
qed

subsection \<open>Restore\<close>

lemma unused_wf: "unused s \<Longrightarrow> dirty s \<Longrightarrow> wf s"
  unfolding unused_def wf_def
  by (auto simp: inv_closed_def inv_disj_def inv_owned_def inv_dirty_def)

lemma wf_closedTokens_empty:
  assumes "wf s" "\<not> dirty s"
  shows "closedTokens s = Map.empty"
proof (rule ext)
  fix i
  show "closedTokens s i = None"
  proof (cases "closedTokens s i")
    case (Some cs)
    with assms(1) obtain a where "tokens s i = Some a" "tok_state (heap s ! a) = inUse"
      unfolding wf_def inv_closed_def by blast
    moreover from this assms(1) have "a < length (heap s)" by (simp add: wf_tokens_valid)
    ultimately show ?thesis using assms unfolding wf_def inv_dirty_def by auto
  qed simp
qed

lemma wf_unused: "wf s \<Longrightarrow> \<not> dirty s \<Longrightarrow> unused s"
  using wf_closedTokens_empty[of s]
  by (auto simp: unused_def wf_def inv_dirty_def)

lemma unused_dirty: "unused s \<Longrightarrow> unused (s\<lparr>dirty := d\<rparr>)"
  by (simp add: unused_def inv_tokens_def inv_names_def)

lemma restoreToken_frame [simp]:
  "tokensByNames (restoreToken i a s) = tokensByNames s"
  "closedTokens (restoreToken i a s) = closedTokens s"
  "listeners (restoreToken i a s) = listeners s"
  "spawned (restoreToken i a s) = spawned s"
  "dirty (restoreToken i a s) = dirty s"
  "length (heap (restoreToken i a s)) = length (heap s)"
  by (simp_all add: restoreToken_def Let_def)

lemma restoreToken_name [simp]:
  "tok_name (heap (restoreToken i a s) ! b) = tok_name (heap s ! b)"
  by (cases "a < length (heap s)")
    (auto simp: restoreToken_def Let_def nth_list_update list_update_beyond)

lemma restoreToken_other:
  "b \<noteq> a \<Longrightarrow> heap (restoreToken i a s) ! b = heap s ! b"
  by (simp add: restoreToken_def Let_def)

lemma restoreToken_self:
  "a < length (heap s) \<Longrightarrow>
     heap (restoreToken i a s) ! a = (heap s ! a)\<lparr>tok_id := i, tok_state := allocated\<rparr>"
  by (simp add: restoreToken_def Let_def)

lemma unused_restoreToken:
  assumes "unused s" "a < length (heap s)"
  shows "unused (restoreToken i a s)"
proof -
  from assms have it: "inv_tokens s" and inm: "inv_names s" by (simp_all add: unused_def)
  have 1: "inv_tokens (restoreToken i a s)"
    unfolding inv_tokens_def
  proof (intro allI impI)
    fix k b assume e: "tokens (restoreToken i a s) k = Some b"
    show "b < length (heap (restoreToken i a s)) \<and> tok_id (heap (restoreToken i a s) ! b) = k"
    proof (cases "k = i")
      case True
      with e have "b = a" by (simp add: restoreToken_def Let_def)
      with True assms(2) show ?thesis by (simp add: restoreToken_self)
    next
      case False
      with e have old: "tokens s k = Some b" and ne: "k \<noteq> tok_id (heap s ! a)"
        by (auto simp: restoreToken_def Let_def split: if_splits)
      with it have b: "b < length (heap s)" "tok_id (heap s ! b) = k"
        by (auto simp: inv_tokens_def)
      with ne have "b \<noteq> a" by auto
      with b show ?thesis by (simp add: restoreToken_other)
    qed
  qed
  have 2: "inv_names (restoreToken i a s)"
    using inm by (simp add: inv_names_def)
  have 3: "\<forall>b < length (heap (restoreToken i a s)).
      tok_state (heap (restoreToken i a s) ! b) = free \<or>
      tok_state (heap (restoreToken i a s) ! b) = allocated"
  proof (intro allI impI)
    fix b assume "b < length (heap (restoreToken i a s))"
    then show "tok_state (heap (restoreToken i a s) ! b) = free \<or>
      tok_state (heap (restoreToken i a s) ! b) = allocated"
      using assms by (cases "b = a") (auto simp: restoreToken_other restoreToken_self unused_def)
  qed
  from 1 2 3 assms(1) show ?thesis by (simp add: unused_def)
qed

lemma restoreLoop_frame [simp]:
  "tokensByNames (restoreLoop ids toks s) = tokensByNames s"
  "closedTokens (restoreLoop ids toks s) = closedTokens s"
  "listeners (restoreLoop ids toks s) = listeners s"
  "spawned (restoreLoop ids toks s) = spawned s"
  "dirty (restoreLoop ids toks s) = dirty s"
  "length (heap (restoreLoop ids toks s)) = length (heap s)"
  by (induction ids toks s rule: restoreLoop.induct) simp_all

lemma unused_restoreLoop:
  "unused s \<Longrightarrow> \<forall>a \<in> set toks. a < length (heap s) \<Longrightarrow> unused (restoreLoop ids toks s)"
  by (induction ids toks s rule: restoreLoop.induct) (simp_all add: unused_restoreToken)

lemma restoreName_frame [simp]:
  "tokensByNames (restoreName e s) = tokensByNames s"
  "closedTokens (restoreName e s) = closedTokens s"
  "listeners (restoreName e s) = listeners s"
  "spawned (restoreName e s) = spawned s"
  "dirty (restoreName e s) = dirty s"
  "length (heap (restoreName e s)) = length (heap s)"
  by (simp_all add: restoreName_def split: option.splits)

lemma unused_restoreName: "unused s \<Longrightarrow> unused (restoreName e s)"
proof (cases "tokensByNames s (fst e)")
  case None
  assume "unused s"
  with None show ?thesis by (simp add: restoreName_def)
next
  case (Some toks)
  assume u: "unused s"
  then have "\<forall>a \<in> set toks. a < length (heap s)"
    using Some by (auto simp: unused_def inv_names_def)
  with u Some show ?thesis by (simp add: restoreName_def unused_restoreLoop)
qed

lemma unused_fold_restoreName: "unused s \<Longrightarrow> unused (fold restoreName toks s)"
  by (induction toks arbitrary: s) (simp_all add: unused_restoreName)

lemma fold_restoreName_frame [simp]:
  "tokensByNames (fold restoreName toks s) = tokensByNames s"
  "closedTokens (fold restoreName toks s) = closedTokens s"
  "listeners (fold restoreName toks s) = listeners s"
  "spawned (fold restoreName toks s) = spawned s"
  "dirty (fold restoreName toks s) = dirty s"
  "length (heap (fold restoreName toks s)) = length (heap s)"
  by (induction toks arbitrary: s) simp_all

lemma wf_Restore: "wf s \<Longrightarrow> wf (snd (Restore s toks))"
proof (cases "dirty s")
  case True
  assume "wf s"
  with True show ?thesis by (simp add: Restore_def)
next
  case False
  assume "wf s"
  with False have "unused (s\<lparr>dirty := True\<rparr>)" by (simp add: wf_unused unused_dirty)
  then have "unused (fold restoreName toks (s\<lparr>dirty := True\<rparr>))"
    by (rule unused_fold_restoreName)
  then have "wf (fold restoreName toks (s\<lparr>dirty := True\<rparr>))"
    by (rule unused_wf) simp
  with False show ?thesis by (simp add: Restore_def)
qed

subsection \<open>NewPool\<close>

lemma initial_emptyPool: "initial emptyPool"
  by (simp add: initial_def emptyPool_def inv_tokens_def inv_names_def)

lemma initial_newToken:
  assumes "initial s"
  shows "initial (newToken g nm s)"
proof -
  from assms have it: "inv_tokens s" and inm: "inv_names s" by (simp_all add: initial_def)
  let ?s' = "newToken g nm s"
  have h: "heap ?s' = heap s @ [\<lparr>tok_id = g (length (heap s)), tok_name = nm, tok_state = free\<rparr>]"
    by (simp add: newToken_def Let_def)
  have 1: "inv_tokens ?s'"
    unfolding inv_tokens_def
  proof (intro allI impI)
    fix k b assume e: "tokens ?s' k = Some b"
    show "b < length (heap ?s') \<and> tok_id (heap ?s' ! b) = k"
    proof (cases "k = g (length (heap s))")
      case True
      with e have "b = length (heap s)" by (simp add: newToken_def Let_def)
      with True show ?thesis by (simp add: h)
    next
      case False
      with e have "tokens s k = Some b" by (simp add: newToken_def Let_def)
      with it have "b < length (heap s)" "tok_id (heap s ! b) = k" by (auto simp: inv_tokens_def)
      then show ?thesis by (simp add: h nth_append)
    qed
  qed
  have 2: "inv_names ?s'"
    unfolding inv_names_def
  proof (intro allI impI)
    fix n ts assume e: "tokensByNames ?s' n = Some ts"
    show "distinct ts \<and> (\<forall>a \<in> set ts. a < length (heap ?s') \<and> tok_name (heap ?s' ! a) = n)"
    proof (cases "n = nm")
      case True
      with e have ts: "ts = byName s nm @ [length (heap s)]" by (simp add: newToken_def Let_def)
      have "distinct (byName s nm)"
        using inm by (auto simp: inv_names_def byName_def split: option.splits)
      moreover have "\<forall>a \<in> set (byName s nm). a < length (heap s) \<and> tok_name (heap s ! a) = nm"
        using byName_members[OF inm] by blast
      ultimately show ?thesis using True ts by (auto simp: h nth_append)
    next
      case False
      with e have "tokensByNames s n = Some ts" by (simp add: newToken_def Let_def)
      with inm have "distinct ts" "\<forall>a \<in> set ts. a < length (heap s) \<and> tok_name (heap s ! a) = n"
        by (auto simp: inv_names_def)
      then show ?thesis by (auto simp: h nth_append)
    qed
  qed
  have 3: "\<forall>b < length (heap ?s'). tok_state (heap ?s' ! b) = free"
    using assms by (auto simp: h nth_append initial_def)
  have 4: "closedTokens ?s' = Map.empty" "listeners ?s' = []" "spawned ?s' = []" "\<not> dirty ?s'"
    using assms by (simp_all add: newToken_def Let_def initial_def)
  from 1 2 3 4 show ?thesis unfolding initial_def by blast
qed

lemma initial_vfLoop: "initial s \<Longrightarrow> initial (vfLoop g nm k s)"
  by (induction k arbitrary: s) (simp_all add: initial_newToken)

lemma initial_capLoop:
  "initial s \<Longrightarrow> initial (fold (\<lambda>c. vfLoop g (f c) k) caps s)"
  by (induction caps arbitrary: s) (simp_all add: initial_vfLoop)

lemma initial_sdLoop:
  "initial s \<Longrightarrow> initial (fold (\<lambda>d. fold (\<lambda>c. vfLoop g (j d c) k) caps) sds s)"
  by (induction sds arbitrary: s) (simp_all add: initial_capLoop)

lemma initial_pfLoop: "initial s \<Longrightarrow> initial (pfLoop j g pf s)"
  by (simp add: pfLoop_def initial_sdLoop)

lemma initial_fold_pfLoop: "initial s \<Longrightarrow> initial (fold (pfLoop j g) pfs s)"
  by (induction pfs arbitrary: s) (simp_all add: initial_pfLoop)

lemma initial_NewPool: "initial (NewPool j g cfg)"
  by (simp add: NewPool_def initial_fold_pfLoop initial_emptyPool)

lemma initial_wf: "initial s \<Longrightarrow> wf s"
  unfolding initial_def wf_def
  by (auto simp: inv_closed_def inv_disj_def inv_owned_def inv_dirty_def)

subsection \<open>Every reachable pool is well formed\<close>

lemma wf_exec: "wf s \<Longrightarrow> wf (exec c s)"
proof (cases c)
  case (CallAddListener l)
  assume "wf s"
  then show ?thesis using CallAddListener by (simp add: AddListener_def wf_listeners)
next
  case CallTokens
  assume "wf s"
  then show ?thesis using CallTokens by (simp add: Tokens_def Let_def wf_dirty)
next
  case (CallFind i)
  assume "wf s"
  then show ?thesis using CallFind
    by (simp add: Find_def Let_def wf_dirty split: sum.splits)
qed (simp_all add: wf_Restore wf_Allocate wf_Free wf_Use wf_StopUsing)

lemma wf_fold_exec: "wf s \<Longrightarrow> wf (fold exec calls s)"
  by (induction calls arbitrary: s) (simp_all add: wf_exec)

lemma wf_run: "wf (run (NewPool j g cfg) calls)"
  by (simp add: run_def wf_fold_exec initial_wf initial_NewPool)

subsection \<open>What the loop of Use leaves alone\<close>

lemma closeFor_frame [simp]:
  "dirty (closeFor a n s) = dirty s"
  "tokens (closeFor a n s) = tokens s"
  "tokensByNames (closeFor a n s) = tokensByNames s"
  "listeners (closeFor a n s) = listeners s"
  "spawned (closeFor a n s) = spawned s"
  "length (heap (closeFor a n s)) = length (heap s)"
  "tok_id (heap (closeFor a n s) ! b) = tok_id (heap s ! b)"
  "tok_name (heap (closeFor a n s) ! b) = tok_name (heap s ! b)"
  by (simp_all add: closeFor_def Let_def split: option.splits)

lemma fold_closeFor_frame [simp]:
  "dirty (fold (closeFor a) names s) = dirty s"
  "tokens (fold (closeFor a) names s) = tokens s"
  "tokensByNames (fold (closeFor a) names s) = tokensByNames s"
  "listeners (fold (closeFor a) names s) = listeners s"
  "spawned (fold (closeFor a) names s) = spawned s"
  "length (heap (fold (closeFor a) names s)) = length (heap s)"
  "tok_id (heap (fold (closeFor a) names s) ! b) = tok_id (heap s ! b)"
  "tok_name (heap (fold (closeFor a) names s) ! b) = tok_name (heap s ! b)"
  by (induction names arbitrary: s) simp_all

subsection \<open>The dirty flag is a latch\<close>

lemma dirty_exec: "dirty s \<Longrightarrow> dirty (exec c s)"
  by (cases c)
    (auto simp: Restore_def AddListener_def Tokens_def Find_def Allocate_def Free_def Use_def
      StopUsing_def Let_def fire_def split: sum.splits state.splits)

lemma dirty_run: "dirty s \<Longrightarrow> dirty (run s calls)"
  unfolding run_def by (induction calls arbitrary: s) (simp_all add: dirty_exec)

lemma Restore_dirty: "dirty s \<Longrightarrow> Restore s toks = (Some AlreadyAccessed, s)"
  by (simp add: Restore_def)

subsection \<open>The example pool\<close>

lemmas eval_defs = run_def NewPool_def pfLoop_def cfg22_def pathJoin2_def tokenIDs_def
  emptyPool_def newToken_def byName_def Use_def find_tok_def closeFor_def findToClose_def
  closedOf_def setState_def fire_def Let_def Allocate_def Free_def StopUsing_def stopUsing_def
  Restore_def restoreName_def restoreToken_def AddListener_def Find_def Tokens_def

lemma pool22_eval: "pool22 =
  \<lparr>heap = [\<lparr>tok_id = ''t'', tok_name = ''d/a'', tok_state = free\<rparr>,
           \<lparr>tok_id = ''tt'', tok_name = ''d/a'', tok_state = free\<rparr>,
           \<lparr>tok_id = ''ttt'', tok_name = ''d/b'', tok_state = free\<rparr>,
           \<lparr>tok_id = ''tttt'', tok_name = ''d/b'', tok_state = free\<rparr>],
   tokens = [''t'' \<mapsto> 0, ''tt'' \<mapsto> 1, ''ttt'' \<mapsto> 2, ''tttt'' \<mapsto> 3],
   tokensByNames = [''d/a'' \<mapsto> [0, 1], ''d/b'' \<mapsto> [2, 3]],
   closedTokens = Map.empty, listeners = [], dirty = False, spawned = []\<rparr>"
  by (simp add: pool22_def eval_defs eval_nat_numeral)

lemma used22_eval: "used22 =
  \<lparr>heap = [\<lparr>tok_id = ''t'', tok_name = ''d/a'', tok_state = inUse\<rparr>,
           \<lparr>tok_id = ''tt'', tok_name = ''d/a'', tok_state = free\<rparr>,
           \<lparr>tok_id = ''ttt'', tok_name = ''d/b'', tok_state = closed\<rparr>,
           \<lparr>tok_id = ''tttt'', tok_name = ''d/b'', tok_state = free\<rparr>],
   tokens = [''t'' \<mapsto> 0, ''tt'' \<mapsto> 1, ''ttt'' \<mapsto> 2, ''tttt'' \<mapsto> 3],
   tokensByNames = [''d/a'' \<mapsto> [0, 1], ''d/b'' \<mapsto> [2, 3]],
   closedTokens = [''t'' \<mapsto> [2]], listeners = [], dirty = True, spawned = []\<rparr>"
  by (simp add: used22_def pool22_eval run_def Use_def find_tok_def closeFor_def findToClose_def
      byName_def closedOf_def setState_def fire_def Let_def)

section \<open>Restore and the dirty flag\<close>

subsection \<open>Which calls set the dirty flag\<close>

lemma dirty_exec_other: "\<not> isAddListener c \<Longrightarrow> dirty (exec c s)"
  by (cases c)
    (auto simp: isAddListener_def Restore_def Tokens_def Find_def Allocate_def Free_def Use_def
      StopUsing_def Let_def fire_def split: sum.splits state.splits)

lemma dirty_exec_AddListener: "isAddListener c \<Longrightarrow> dirty (exec c s) = dirty s"
  by (cases c) (auto simp: isAddListener_def AddListener_def)

lemma dirty_fold_exec:
  "dirty (fold exec calls s) \<longleftrightarrow> dirty s \<or> \<not> list_all isAddListener calls"
proof (induction calls arbitrary: s)
  case Nil
  show ?case by simp
next
  case (Cons c calls)
  show ?case
  proof (cases "isAddListener c")
    case True
    then show ?thesis using Cons by (simp add: dirty_exec_AddListener)
  next
    case False
    then show ?thesis using Cons by (simp add: dirty_exec_other)
  qed
qed

lemma dirty_run_NewPool:
  "dirty (run (NewPool j g cfg) calls) \<longleftrightarrow> \<not> list_all isAddListener calls"
  using initial_NewPool[of j g cfg] by (simp add: run_def dirty_fold_exec initial_def)

subsection \<open>The tokens that Restore rewrites\<close>

lemma restoreLoop_name [simp]:
  "tok_name (heap (restoreLoop ids toks s) ! b) = tok_name (heap s ! b)"
  by (induction ids toks s rule: restoreLoop.induct) simp_all

lemma restoreName_name [simp]:
  "tok_name (heap (restoreName e s) ! b) = tok_name (heap s ! b)"
  by (simp add: restoreName_def split: option.splits)

lemma inv_names_restoreName: "inv_names s \<Longrightarrow> inv_names (restoreName e s)"
  by (simp add: inv_names_def)

lemma restoreLoop_other:
  "b \<notin> set (take (length ids) toks) \<Longrightarrow> heap (restoreLoop ids toks s) ! b = heap s ! b"
  by (induction ids toks s rule: restoreLoop.induct) (simp_all add: restoreToken_other)

lemma restoreLoop_nth:
  "distinct toks \<Longrightarrow> \<forall>a \<in> set toks. a < length (heap s) \<Longrightarrow> k < length ids \<Longrightarrow>
   k < length toks \<Longrightarrow>
   heap (restoreLoop ids toks s) ! (toks ! k) =
     (heap s ! (toks ! k))\<lparr>tok_id := ids ! k, tok_state := allocated\<rparr>"
proof (induction ids toks s arbitrary: k rule: restoreLoop.induct)
  case (1 i ids a toks p)
  show ?case
  proof (cases k)
    case 0
    have "a \<notin> set (take (length ids) toks)"
      using "1.prems"(1) by (auto dest: in_set_takeD)
    then show ?thesis using 0 "1.prems"(2)
      by (simp add: restoreLoop_other restoreToken_self)
  next
    case (Suc m)
    have ne: "toks ! m \<noteq> a" using "1.prems"(1,4) Suc by auto
    have "heap (restoreLoop ids toks (restoreToken i a p)) ! (toks ! m) =
        (heap (restoreToken i a p) ! (toks ! m))\<lparr>tok_id := ids ! m, tok_state := allocated\<rparr>"
      using "1.prems" Suc by (intro "1.IH") auto
    then show ?thesis using Suc ne by (simp add: restoreToken_other)
  qed
qed simp_all

lemma restoreName_other:
  assumes "inv_names s" "tok_name (heap s ! b) \<noteq> fst e"
  shows "heap (restoreName e s) ! b = heap s ! b"
proof (cases "tokensByNames s (fst e)")
  case None
  then show ?thesis by (simp add: restoreName_def)
next
  case (Some ts)
  with assms have "b \<notin> set ts" by (auto simp: inv_names_def)
  then have "b \<notin> set (take (length (snd e)) ts)" by (auto dest: in_set_takeD)
  with Some show ?thesis by (simp add: restoreName_def restoreLoop_other)
qed

lemma fold_restoreName_other:
  "inv_names s \<Longrightarrow> \<forall>e \<in> set toks. fst e \<noteq> tok_name (heap s ! b) \<Longrightarrow>
   heap (fold restoreName toks s) ! b = heap s ! b"
proof (induction toks arbitrary: s)
  case Nil
  show ?case by simp
next
  case (Cons e toks)
  have "heap (fold restoreName toks (restoreName e s)) ! b = heap (restoreName e s) ! b"
    using Cons.prems by (intro Cons.IH) (simp_all add: inv_names_restoreName)
  also have "\<dots> = heap s ! b"
    using Cons.prems by (intro restoreName_other) auto
  finally show ?case by simp
qed

lemma fold_restoreName_nth:
  "inv_names s \<Longrightarrow> distinct (map fst toks) \<Longrightarrow> (n, ids) \<in> set toks \<Longrightarrow>
   tokensByNames s n = Some ts \<Longrightarrow> k < length ids \<Longrightarrow> k < length ts \<Longrightarrow>
   heap (fold restoreName toks s) ! (ts ! k) =
     (heap s ! (ts ! k))\<lparr>tok_id := ids ! k, tok_state := allocated\<rparr>"
proof (induction toks arbitrary: s)
  case Nil
  then show ?case by simp
next
  case (Cons e toks)
  from Cons.prems(1,4,6) have ts: "distinct ts" "\<forall>a \<in> set ts. a < length (heap s)"
    "tok_name (heap s ! (ts ! k)) = n"
    by (auto simp: inv_names_def)
  show ?case
  proof (cases "e = (n, ids)")
    case True
    let ?s' = "restoreName e s"
    have s': "heap ?s' ! (ts ! k) = (heap s ! (ts ! k))\<lparr>tok_id := ids ! k, tok_state := allocated\<rparr>"
      using True Cons.prems ts by (simp add: restoreName_def restoreLoop_nth)
    have "\<forall>e' \<in> set toks. fst e' \<noteq> n" using Cons.prems(2) True by auto
    then have "heap (fold restoreName toks ?s') ! (ts ! k) = heap ?s' ! (ts ! k)"
      using Cons.prems(1) ts(3)
      by (intro fold_restoreName_other) (simp_all add: inv_names_restoreName)
    with s' show ?thesis by simp
  next
    case False
    with Cons.prems have mem: "(n, ids) \<in> set toks" and ne: "fst e \<noteq> n"
      by (auto simp: rev_image_eqI)
    let ?s' = "restoreName e s"
    have "heap (fold restoreName toks ?s') ! (ts ! k) =
        (heap ?s' ! (ts ! k))\<lparr>tok_id := ids ! k, tok_state := allocated\<rparr>"
      using Cons.prems mem by (intro Cons.IH) (simp_all add: inv_names_restoreName)
    moreover have "heap ?s' ! (ts ! k) = heap s ! (ts ! k)"
      using Cons.prems(1) ts(3) ne by (intro restoreName_other) auto
    ultimately show ?thesis by simp
  qed
qed

lemma fold_restoreName_untouched:
  "\<forall>e \<in> set toks. b \<notin> set (take (length (snd e)) (byName s (fst e))) \<Longrightarrow>
   heap (fold restoreName toks s) ! b = heap s ! b"
proof (induction toks arbitrary: s)
  case Nil
  show ?case by simp
next
  case (Cons e toks)
  have "heap (fold restoreName toks (restoreName e s)) ! b = heap (restoreName e s) ! b"
    using Cons.prems by (intro Cons.IH) (simp add: byName_def)
  also have "\<dots> = heap s ! b"
    using Cons.prems
    by (auto simp: restoreName_def byName_def restoreLoop_other split: option.splits)
  finally show ?case by simp
qed

lemma listening22_eval:
  "run pool22 [CallAddListener 7] = pool22\<lparr>listeners := [7]\<rparr>"
  by (simp add: run_def AddListener_def pool22_eval)

section \<open>What stopUsing does to a token in use\<close>

lemma nth_setState:
  "setState a st h ! b = (if b = a \<and> a < length h then (h ! a)\<lparr>tok_state := st\<rparr> else h ! b)"
  by (cases "a < length h") (auto simp: setState_def nth_list_update list_update_beyond)

lemma nth_fold_setState:
  "fold (\<lambda>t. setState t st) cs h ! b =
     (if b \<in> set cs \<and> b < length h then (h ! b)\<lparr>tok_state := st\<rparr> else h ! b)"
  by (induction cs arbitrary: h) (auto simp: nth_setState)

lemma wf_not_free_dirty:
  "wf s \<Longrightarrow> a < length (heap s) \<Longrightarrow> tok_state (heap s ! a) \<noteq> free \<Longrightarrow> dirty s"
  by (auto simp: wf_def inv_dirty_def)

lemma wf_touched:
  "wf s \<Longrightarrow> tokens s i = Some a \<Longrightarrow> tok_state (heap s ! a) \<noteq> free \<Longrightarrow> s\<lparr>dirty := True\<rparr> = s"
  using wf_not_free_dirty[of s a] wf_tokens_valid[of s i a] by simp

lemma wf_own_closure:
  assumes "wf s" "tokens s i = Some a" "tok_state (heap s ! a) \<noteq> closed"
  shows "a \<notin> set (closedOf s i)"
  using closedOf_members[of s a i] assms by (auto simp: wf_def)

lemma stopUsing_heap:
  assumes "wf s" "tokens s i = Some a" "tok_state (heap s ! a) = inUse"
  shows "heap (snd (stopUsing s i)) ! b =
     (if b = a then (heap s ! a)\<lparr>tok_state := allocated\<rparr>
      else if b \<in> set (closedOf s i) then (heap s ! b)\<lparr>tok_state := free\<rparr>
      else heap s ! b)"
proof -
  have a: "a < length (heap s)" "tok_id (heap s ! a) = i"
    using assms by (simp_all add: wf_tokens_valid wf_tokens_id)
  have n: "a \<notin> set (closedOf s i)" using assms by (simp add: wf_own_closure)
  have m: "b \<in> set (closedOf s i) \<Longrightarrow> b < length (heap s)"
    using closedOf_members[of s b i] assms(1) by (simp add: wf_def)
  show ?thesis
    using a n m
    by (auto simp: stopUsing_inUse[OF assms(2,3)] fire_def nth_fold_setState nth_setState)
qed

lemma stopUsing_fields:
  assumes "wf s" "tokens s i = Some a" "tok_state (heap s ! a) = inUse"
  shows "fst (stopUsing s i) = None"
    "closedTokens (snd (stopUsing s i)) = (closedTokens s)(i := None)"
    "tokensByNames (snd (stopUsing s i)) = tokensByNames s"
    "listeners (snd (stopUsing s i)) = listeners s"
    "spawned (snd (stopUsing s i)) = spawned s @ listeners s"
    "length (heap (snd (stopUsing s i))) = length (heap s)"
  using assms
  by (simp_all add: stopUsing_inUse[OF assms(2,3)] fire_def wf_tokens_id)

lemma Allocate_inUse:
  "tokens s i = Some a \<Longrightarrow> tok_state (heap s ! a) = inUse \<Longrightarrow> Allocate s i = StopUsing s i"
  by (simp add: Allocate_def StopUsing_def find_tok_def)

lemma Free_inUse:
  "tokens s i = Some a \<Longrightarrow> tok_state (heap s ! a) = inUse \<Longrightarrow>
   Free s i = (None, (snd (StopUsing s i))\<lparr>heap := setState a free (heap (snd (StopUsing s i)))\<rparr>)"
  by (simp add: Free_def StopUsing_def find_tok_def Let_def)

lemma setState_update: "setState a st h = h[a := (h ! a)\<lparr>tok_state := st\<rparr>]"
  by (simp add: setState_def)

text \<open>The pool after the implicit or explicit stop of a token in use.\<close>

lemma stopped:
  assumes "wf s" "tokens s i = Some a" "tok_state (heap s ! a) = inUse"
  shows "fst (StopUsing s i) = None"
    "tok_state (heap (snd (StopUsing s i)) ! a) = allocated"
    "\<forall>c \<in> set (closedOf s i). tok_state (heap (snd (StopUsing s i)) ! c) = free"
    "closedTokens (snd (StopUsing s i)) = (closedTokens s)(i := None)"
    "\<forall>b. b \<noteq> a \<longrightarrow> b \<notin> set (closedOf s i) \<longrightarrow> heap (snd (StopUsing s i)) ! b = heap s ! b"
    "\<forall>b. tok_id (heap (snd (StopUsing s i)) ! b) = tok_id (heap s ! b) \<and>
         tok_name (heap (snd (StopUsing s i)) ! b) = tok_name (heap s ! b)"
    "tokens (snd (StopUsing s i)) = tokens s"
    "tokensByNames (snd (StopUsing s i)) = tokensByNames s"
proof -
  have d: "StopUsing s i = stopUsing s i"
    using assms wf_touched[of s i a] by (simp add: StopUsing_def)
  have n: "a \<notin> set (closedOf s i)" using assms by (simp add: wf_own_closure)
  show "fst (StopUsing s i) = None" using assms by (simp add: d stopUsing_fields)
  show "tok_state (heap (snd (StopUsing s i)) ! a) = allocated"
    using assms by (simp add: d stopUsing_heap)
  show "\<forall>c \<in> set (closedOf s i). tok_state (heap (snd (StopUsing s i)) ! c) = free"
    using assms n by (auto simp: d stopUsing_heap)
  show "closedTokens (snd (StopUsing s i)) = (closedTokens s)(i := None)"
    using assms by (simp add: d stopUsing_fields)
  show "\<forall>b. b \<noteq> a \<longrightarrow> b \<notin> set (closedOf s i) \<longrightarrow> heap (snd (StopUsing s i)) ! b = heap s ! b"
    using assms by (simp add: d stopUsing_heap)
  show "\<forall>b. tok_id (heap (snd (StopUsing s i)) ! b) = tok_id (heap s ! b) \<and>
         tok_name (heap (snd (StopUsing s i)) ! b) = tok_name (heap s ! b)"
    using assms by (simp add: d stopUsing_heap)
  show "tokens (snd (StopUsing s i)) = tokens s" by (simp add: d)
  show "tokensByNames (snd (StopUsing s i)) = tokensByNames s"
    using assms by (simp add: d stopUsing_fields)
qed

lemma used22_run: "used22 = run (NewPool pathJoin2 tokenIDs cfg22) [CallUse ''t'' [''d/a'', ''d/b'']]"
  by (simp add: used22_def pool22_def)

lemma used22_facts:
  "tokens used22 ''t'' = Some 0" "tokens used22 ''tt'' = Some (Suc 0)" "tokens used22 ''ttt'' = Some 2"
  "tok_state (heap used22 ! 0) = inUse" "tok_state (heap used22 ! Suc 0) = free"
  "tok_state (heap used22 ! 2) = closed" "tok_state (heap used22 ! 3) = free"
  "tok_name (heap used22 ! 0) = ''d/a''" "tok_name (heap used22 ! Suc 0) = ''d/a''"
  "tok_name (heap used22 ! 2) = ''d/b''" "tok_name (heap used22 ! 3) = ''d/b''"
  "closedOf used22 ''t'' = [2]" "closedTokens used22 ''t'' = Some [2]"
  by (simp_all add: used22_eval closedOf_def)

section \<open>What Use does\<close>

lemma Use_refused:
  assumes "tokens s i = Some a"
    "tok_state (heap s ! a) = inUse \<or> tok_state (heap s ! a) = closed"
  shows "Use s i names =
    (Some (TokenIs (tok_state (heap s ! a)) (tok_name (heap s ! a)) (tok_id (heap s ! a))),
     s\<lparr>dirty := True\<rparr>)"
  using assms by (auto simp: Use_def find_tok_def Let_def)

lemma Use_accepted:
  assumes "tokens s i = Some a"
    "tok_state (heap s ! a) = free \<or> tok_state (heap s ! a) = allocated"
  shows "Use s i names =
    (None, fire (fold (closeFor a) names (s\<lparr>dirty := True, heap := setState a inUse (heap s)\<rparr>)))"
  using assms by (auto simp: Use_def find_tok_def Let_def)

lemma holding_start:
  assumes "wf s" "tokens s i = Some a"
    "tok_state (heap s ! a) = free \<or> tok_state (heap s ! a) = allocated"
  shows "holding a (s\<lparr>dirty := True, heap := setState a inUse (heap s)\<rparr>)"
proof -
  let ?s = "s\<lparr>dirty := True\<rparr>"
  have "wf ?s" using assms(1) by (rule wf_dirty)
  then have "wf (?s\<lparr>heap := setState a inUse (heap ?s)\<rparr>)"
    using assms(3) by (intro wf_setState_plain) auto
  then show ?thesis
    using assms wf_tokens_valid[OF assms(1,2)] wf_tokens_id[OF assms(1,2)]
    by (simp add: holding_def state_setState)
qed

lemma wf_no_closure:
  assumes "wf s" "tokens s i = Some a" "tok_state (heap s ! a) \<noteq> inUse"
  shows "closedTokens s i = None"
proof (cases "closedTokens s i")
  case (Some cs)
  with assms(1) obtain b where "tokens s i = Some b" "tok_state (heap s ! b) = inUse"
    unfolding wf_def inv_closed_def by blast
  with assms show ?thesis by simp
qed simp

text \<open>One turn of the loop that closes a token.\<close>

lemma closeFor_picks:
  assumes "holding a s" "n \<noteq> tok_name (heap s ! a)" "findToClose s n = Some c"
  shows "closeFor a n s = s\<lparr>heap := setState c closed (heap s),
      closedTokens := (closedTokens s)(tok_id (heap s ! a) \<mapsto> closedOf s (tok_id (heap s ! a)) @ [c])\<rparr>"
    "c < length (heap s)" "c \<noteq> a" "c \<in> set (byName s n)" "tok_name (heap s ! c) = n"
    "tok_state (heap s ! c) = free \<or> tok_state (heap s ! c) = allocated"
    "c \<notin> set (closedOf s k)"
proof -
  from assms(1) have w: "wf s" and u: "tok_state (heap s ! a) = inUse"
    by (simp_all add: holding_def)
  from findToClose_Some[OF assms(3)] show c: "c \<in> set (byName s n)"
    "tok_state (heap s ! c) = free \<or> tok_state (heap s ! c) = allocated" by auto
  from byName_members[OF _ c(1)] w show "c < length (heap s)" "tok_name (heap s ! c) = n"
    by (simp_all add: wf_def)
  show "c \<noteq> a" using u c(2) by auto
  show "c \<notin> set (closedOf s k)"
    using closedOf_members[of s c k] w c(2) by (auto simp: wf_def)
  show "closeFor a n s = s\<lparr>heap := setState c closed (heap s),
      closedTokens := (closedTokens s)(tok_id (heap s ! a) \<mapsto> closedOf s (tok_id (heap s ! a)) @ [c])\<rparr>"
    using assms(2,3) by (simp add: closeFor_def Let_def)
qed

lemma closeFor_skips:
  "n = tok_name (heap s ! a) \<or> findToClose s n = None \<Longrightarrow> closeFor a n s = s"
  by (auto simp: closeFor_def Let_def)

lemma closeFor_fire: "closeFor a n (fire s) = fire (closeFor a n s)"
  by (simp add: closeFor_def fire_def findToClose_def byName_def closedOf_def Let_def
      split: option.splits)

text \<open>The whole loop: which tokens change, and how.\<close>

lemma loop_effect:
  assumes "holding a s"
  shows "let s' = fold (closeFor a) names s; i = tok_id (heap s ! a);
             new = set (closedOf s' i) - set (closedOf s i)
         in (\<forall>b. heap s' ! b =
                (if b \<in> new then (heap s ! b)\<lparr>tok_state := closed\<rparr> else heap s ! b)) \<and>
            (\<forall>b \<in> new. tok_state (heap s ! b) = free \<or> tok_state (heap s ! b) = allocated) \<and>
            set (closedOf s i) \<subseteq> set (closedOf s' i) \<and>
            (\<forall>k. k \<noteq> i \<longrightarrow> closedTokens s' k = closedTokens s k)"
  using assms
proof (induction names arbitrary: s)
  case Nil
  show ?case by (simp add: Let_def)
next
  case (Cons n names)
  let ?s1 = "closeFor a n s"
  let ?s' = "fold (closeFor a) names ?s1"
  let ?i = "tok_id (heap s ! a)"
  have h1: "holding a ?s1" using Cons.prems by (rule holding_closeFor)
  have i1: "tok_id (heap ?s1 ! a) = ?i" by simp
  note IH = Cons.IH[OF h1, unfolded Let_def i1]
  show ?case
  proof (cases "n = tok_name (heap s ! a) \<or> findToClose s n = None")
    case True
    then have "?s1 = s" by (rule closeFor_skips)
    with IH show ?thesis by (simp add: Let_def)
  next
    case False
    then obtain c where c: "n \<noteq> tok_name (heap s ! a)" "findToClose s n = Some c" by auto
    note p = closeFor_picks[OF Cons.prems c]
    have co: "closedOf ?s1 ?i = closedOf s ?i @ [c]"
      by (simp add: p(1) closedOf_def)
    have ot: "\<And>k. k \<noteq> ?i \<Longrightarrow> closedTokens ?s1 k = closedTokens s k"
      by (simp add: p(1))
    have hp: "\<And>b. heap ?s1 ! b = (if b = c then (heap s ! c)\<lparr>tok_state := closed\<rparr> else heap s ! b)"
      using p(2) by (simp add: p(1) setState_def nth_list_update)
    have nc: "c \<notin> set (closedOf s ?i)" by (rule p(7))
    show ?thesis
      unfolding Let_def fold_simps
    proof (intro conjI allI ballI impI)
      fix b
      show "heap ?s' ! b =
          (if b \<in> set (closedOf ?s' ?i) - set (closedOf s ?i)
           then (heap s ! b)\<lparr>tok_state := closed\<rparr> else heap s ! b)"
        using IH nc co by (auto simp: hp)
    next
      fix b assume "b \<in> set (closedOf ?s' ?i) - set (closedOf s ?i)"
      then show "tok_state (heap s ! b) = free \<or> tok_state (heap s ! b) = allocated"
        using IH co p(6) by (cases "b = c") (auto simp: hp)
    next
      show "set (closedOf s ?i) \<subseteq> set (closedOf ?s' ?i)"
        using IH co by auto
    next
      fix k assume "k \<noteq> ?i"
      then show "closedTokens ?s' k = closedTokens s k"
        using IH ot by simp
    qed
  qed
qed

text \<open>The pool after a successful Use, compared with the pool before.\<close>

lemma used:
  assumes w: "wf s" and t: "tokens s i = Some a"
    and f: "tok_state (heap s ! a) = free \<or> tok_state (heap s ! a) = allocated"
  shows "fst (Use s i names) = None"
    "wf (snd (Use s i names))"
    "tokens (snd (Use s i names)) = tokens s"
    "tokensByNames (snd (Use s i names)) = tokensByNames s"
    "dirty (snd (Use s i names))"
    "heap (snd (Use s i names)) ! a = (heap s ! a)\<lparr>tok_state := inUse\<rparr>"
    "\<forall>c \<in> set (closedOf (snd (Use s i names)) i).
        c \<noteq> a \<and> (tok_state (heap s ! c) = free \<or> tok_state (heap s ! c) = allocated) \<and>
        heap (snd (Use s i names)) ! c = (heap s ! c)\<lparr>tok_state := closed\<rparr>"
    "\<forall>b. b \<noteq> a \<longrightarrow> b \<notin> set (closedOf (snd (Use s i names)) i) \<longrightarrow>
        heap (snd (Use s i names)) ! b = heap s ! b"
    "\<forall>k. k \<noteq> i \<longrightarrow> closedTokens (snd (Use s i names)) k = closedTokens s k"
proof -
  let ?s0 = "s\<lparr>dirty := True, heap := setState a inUse (heap s)\<rparr>"
  let ?s' = "fold (closeFor a) names ?s0"
  have u: "Use s i names = (None, fire ?s')" using t f by (rule Use_accepted)
  have a: "a < length (heap s)" "tok_id (heap s ! a) = i"
    using w t by (simp_all add: wf_tokens_valid wf_tokens_id)
  have h0: "holding a ?s0" using w t f by (rule holding_start)
  have i0: "tok_id (heap ?s0 ! a) = i" using a by simp
  have c0: "closedOf ?s0 i = []"
    using wf_no_closure[OF w t] f by (auto simp: closedOf_def)
  have n0: "\<And>b. setState a inUse (heap s) ! b = (if b = a then (heap s ! a)\<lparr>tok_state := inUse\<rparr> else heap s ! b)"
    using a(1) by (simp add: nth_setState)
  note L = loop_effect[OF h0, of names, unfolded Let_def i0 c0, simplified]
  have h': "holding a ?s'" using h0 by (rule holding_fold_closeFor)
  have na: "a \<notin> set (closedOf ?s' i)"
    using closedOf_members[of ?s' a i] h' by (auto simp: holding_def wf_def)
  have cf: "closedOf (fire ?s') i = closedOf ?s' i" by (simp add: closedOf_def fire_def)
  show "fst (Use s i names) = None" by (simp add: u)
  show "wf (snd (Use s i names))" using w by (rule wf_Use)
  show "tokens (snd (Use s i names)) = tokens s" by (simp add: u fire_def)
  show "tokensByNames (snd (Use s i names)) = tokensByNames s" by (simp add: u fire_def)
  show "dirty (snd (Use s i names))" by (simp add: u fire_def)
  show "heap (snd (Use s i names)) ! a = (heap s ! a)\<lparr>tok_state := inUse\<rparr>"
    using L na by (simp add: u fire_def n0)
  show "\<forall>c \<in> set (closedOf (snd (Use s i names)) i).
        c \<noteq> a \<and> (tok_state (heap s ! c) = free \<or> tok_state (heap s ! c) = allocated) \<and>
        heap (snd (Use s i names)) ! c = (heap s ! c)\<lparr>tok_state := closed\<rparr>"
  proof
    fix c assume "c \<in> set (closedOf (snd (Use s i names)) i)"
    then have c: "c \<in> set (closedOf ?s' i)" by (simp add: u cf)
    with na have ne: "c \<noteq> a" by auto
    from L c have "tok_state (heap ?s0 ! c) = free \<or> tok_state (heap ?s0 ! c) = allocated"
      "heap ?s' ! c = (heap ?s0 ! c)\<lparr>tok_state := closed\<rparr>" by auto
    with ne show "c \<noteq> a \<and> (tok_state (heap s ! c) = free \<or> tok_state (heap s ! c) = allocated) \<and>
        heap (snd (Use s i names)) ! c = (heap s ! c)\<lparr>tok_state := closed\<rparr>"
      by (simp add: u fire_def n0)
  qed
  show "\<forall>b. b \<noteq> a \<longrightarrow> b \<notin> set (closedOf (snd (Use s i names)) i) \<longrightarrow>
        heap (snd (Use s i names)) ! b = heap s ! b"
    using L by (simp add: u cf n0) (simp add: fire_def n0)
  show "\<forall>k. k \<noteq> i \<longrightarrow> closedTokens (snd (Use s i names)) k = closedTokens s k"
    using L by (simp add: u fire_def)
qed

lemma StopUsing_heap:
  assumes "wf s" "tokens s i = Some a" "tok_state (heap s ! a) = inUse"
  shows "heap (snd (StopUsing s i)) ! b =
     (if b = a then (heap s ! a)\<lparr>tok_state := allocated\<rparr>
      else if b \<in> set (closedOf s i) then (heap s ! b)\<lparr>tok_state := free\<rparr>
      else heap s ! b)"
  using assms wf_touched[of s i a] stopUsing_heap[OF assms, of b]
  by (simp add: StopUsing_def)

lemma granted22_run:
  "granted22 = run (NewPool pathJoin2 tokenIDs cfg22) [CallAllocate ''ttt'', CallAllocate ''tttt'']"
  by (simp add: granted22_def pool22_def)

lemma granted22_eval: "granted22 =
  \<lparr>heap = [\<lparr>tok_id = ''t'', tok_name = ''d/a'', tok_state = free\<rparr>,
           \<lparr>tok_id = ''tt'', tok_name = ''d/a'', tok_state = free\<rparr>,
           \<lparr>tok_id = ''ttt'', tok_name = ''d/b'', tok_state = allocated\<rparr>,
           \<lparr>tok_id = ''tttt'', tok_name = ''d/b'', tok_state = allocated\<rparr>],
   tokens = [''t'' \<mapsto> 0, ''tt'' \<mapsto> 1, ''ttt'' \<mapsto> 2, ''tttt'' \<mapsto> 3],
   tokensByNames = [''d/a'' \<mapsto> [0, 1], ''d/b'' \<mapsto> [2, 3]],
   closedTokens = Map.empty, listeners = [], dirty = True, spawned = []\<rparr>"
  by (simp add: granted22_def pool22_eval run_def Allocate_def find_tok_def setState_def)

lemma granted22_facts:
  "tokens granted22 ''t'' = Some 0"
  "tok_state (heap granted22 ! 0) = free" "tok_state (heap granted22 ! 2) = allocated"
  "closedOf (snd (Use granted22 ''t'' [''d/a'', ''d/b''])) ''t'' = [2]"
  "closedTokens granted22 ''t'' = None"
  by (simp_all add: granted22_eval Use_def find_tok_def closeFor_def findToClose_def
      byName_def closedOf_def setState_def fire_def)

section \<open>The selection made by findToClose\<close>

lemma scan_find: "scan h st ts = List.find (\<lambda>c. tok_state (h ! c) = st) ts"
  by (induction ts) auto

lemma scan_Some_iff:
  "scan h st ts = Some c \<longleftrightarrow>
     (\<exists>k < length ts. ts ! k = c \<and> tok_state (h ! c) = st \<and>
        (\<forall>m < k. tok_state (h ! (ts ! m)) \<noteq> st))"
  unfolding scan_find find_Some_iff by auto

lemma scan_None_iff:
  "scan h st ts = None \<longleftrightarrow> (\<forall>m < length ts. tok_state (h ! (ts ! m)) \<noteq> st)"
  unfolding scan_None all_set_conv_all_nth by blast

lemma findToClose_iff:
  "findToClose p n = Some c \<longleftrightarrow>
     (\<exists>k < length (byName p n). byName p n ! k = c \<and>
        (tok_state (heap p ! c) = free \<and>
           (\<forall>m < k. tok_state (heap p ! (byName p n ! m)) \<noteq> free) \<or>
         tok_state (heap p ! c) = allocated \<and>
           (\<forall>m < length (byName p n). tok_state (heap p ! (byName p n ! m)) \<noteq> free) \<and>
           (\<forall>m < k. tok_state (heap p ! (byName p n ! m)) \<noteq> allocated)))"
proof (cases "scan (heap p) free (byName p n)")
  case None
  then have nf: "\<forall>m < length (byName p n). tok_state (heap p ! (byName p n ! m)) \<noteq> free"
    by (simp add: scan_None_iff)
  have "findToClose p n = scan (heap p) allocated (byName p n)"
    using None by (simp add: findToClose_def)
  then show ?thesis using nf by (auto simp: scan_Some_iff)
next
  case (Some d)
  then obtain k where k: "k < length (byName p n)" "byName p n ! k = d"
    "tok_state (heap p ! d) = free" "\<forall>m < k. tok_state (heap p ! (byName p n ! m)) \<noteq> free"
    by (auto simp: scan_Some_iff)
  have f: "findToClose p n = Some d" using Some by (simp add: findToClose_def)
  show ?thesis
  proof
    assume "findToClose p n = Some c"
    with f have "c = d" by simp
    with k show "\<exists>k < length (byName p n). byName p n ! k = c \<and>
        (tok_state (heap p ! c) = free \<and>
           (\<forall>m < k. tok_state (heap p ! (byName p n ! m)) \<noteq> free) \<or>
         tok_state (heap p ! c) = allocated \<and>
           (\<forall>m < length (byName p n). tok_state (heap p ! (byName p n ! m)) \<noteq> free) \<and>
           (\<forall>m < k. tok_state (heap p ! (byName p n ! m)) \<noteq> allocated))"
      by blast
  next
    assume "\<exists>k < length (byName p n). byName p n ! k = c \<and>
        (tok_state (heap p ! c) = free \<and>
           (\<forall>m < k. tok_state (heap p ! (byName p n ! m)) \<noteq> free) \<or>
         tok_state (heap p ! c) = allocated \<and>
           (\<forall>m < length (byName p n). tok_state (heap p ! (byName p n ! m)) \<noteq> free) \<and>
           (\<forall>m < k. tok_state (heap p ! (byName p n ! m)) \<noteq> allocated))"
    then obtain j where j: "j < length (byName p n)" "byName p n ! j = c"
      "tok_state (heap p ! c) = free" "\<forall>m < j. tok_state (heap p ! (byName p n ! m)) \<noteq> free"
      using k(1,2,3) by auto
    have "j = k"
    proof (rule ccontr)
      assume "j \<noteq> k"
      then consider "j < k" | "k < j" by linarith
      then show False using j k by cases auto
    qed
    with j k f show "findToClose p n = Some c" by simp
  qed
qed

lemma findToClose_None_iff:
  "findToClose p n = None \<longleftrightarrow>
     (\<forall>c \<in> set (byName p n). tok_state (heap p ! c) \<noteq> free \<and> tok_state (heap p ! c) \<noteq> allocated)"
  by (auto simp: findToClose_def scan_None split: option.splits dest: scan_Some)

lemma findToClose_unknown: "tokensByNames p n = None \<Longrightarrow> findToClose p n = None"
  by (simp add: findToClose_def byName_def)

section \<open>Use, one name at a time\<close>

lemma fire_fold_closeFor: "fold (closeFor a) names (fire s) = fire (fold (closeFor a) names s)"
  by (induction names arbitrary: s) (simp_all add: closeFor_fire)

lemma Use_snoc:
  assumes "tokens s i = Some a"
    "tok_state (heap s ! a) = free \<or> tok_state (heap s ! a) = allocated"
  shows "snd (Use s i (names @ [n])) = closeFor a n (snd (Use s i names))"
  by (simp add: Use_accepted[OF assms] closeFor_fire)

lemma closures_bounded:
  "length (closedOf (fold (closeFor a) names s) (tok_id (heap s ! a))) \<le>
     length (closedOf s (tok_id (heap s ! a))) +
     length (filter (\<lambda>n. n \<noteq> tok_name (heap s ! a)) names)"
proof (induction names arbitrary: s)
  case Nil
  show ?case by simp
next
  case (Cons n names)
  let ?i = "tok_id (heap s ! a)"
  let ?k = "length (filter (\<lambda>n. n \<noteq> tok_name (heap s ! a)) names)"
  have IH: "length (closedOf (fold (closeFor a) names (closeFor a n s)) ?i) \<le>
      length (closedOf (closeFor a n s) ?i) + ?k"
    using Cons[of "closeFor a n s"] by simp
  show ?case
  proof (cases "n = tok_name (heap s ! a)")
    case True
    then have "closeFor a n s = s" by (simp add: closeFor_skips)
    with IH True show ?thesis by simp
  next
    case False
    have "length (closedOf (closeFor a n s) ?i) \<le> Suc (length (closedOf s ?i))"
      by (simp add: closeFor_def closedOf_def Let_def split: option.splits)
    with IH have "length (closedOf (fold (closeFor a) names (closeFor a n s)) ?i) \<le>
        Suc (length (closedOf s ?i) + ?k)" by linarith
    with False show ?thesis by simp
  qed
qed

lemma granted22_use:
  "tok_name (heap granted22 ! 0) = ''d/a''"
  "findToClose (snd (Use granted22 ''t'' [''d/a''])) ''d/b'' = Some 2"
  "tokensByNames granted22 ''e/x'' = None"
  by (simp_all add: granted22_eval Use_def find_tok_def closeFor_def findToClose_def
      byName_def closedOf_def setState_def fire_def)

section \<open>One closed sibling for each name\<close>

lemma scan_cong:
  "\<forall>c \<in> set ts. tok_state (h' ! c) = tok_state (h ! c) \<Longrightarrow> scan h' st ts = scan h st ts"
  by (induction ts) auto

lemma findToClose_other_name:
  assumes "inv_names s" "tok_name (heap s ! c) \<noteq> m"
  shows "findToClose (s\<lparr>heap := setState c st (heap s), closedTokens := x\<rparr>) m = findToClose s m"
proof -
  have "\<forall>b \<in> set (byName s m). tok_state (setState c st (heap s) ! b) = tok_state (heap s ! b)"
    using byName_members[OF assms(1), of _ m] assms(2) by (auto simp: state_setState)
  then have "\<And>q. scan (setState c st (heap s)) q (byName s m) = scan (heap s) q (byName s m)"
    by (rule scan_cong)
  moreover have "byName (s\<lparr>heap := setState c st (heap s), closedTokens := x\<rparr>) m = byName s m"
    by (simp add: byName_def)
  ultimately show ?thesis by (simp add: findToClose_def split: option.splits)
qed

lemma findToClose_marked:
  assumes "inv_names s" "tok_name (heap s ! a) \<noteq> m"
  shows "findToClose (s\<lparr>dirty := True, heap := setState a st (heap s)\<rparr>) m = findToClose s m"
proof -
  have "\<forall>b \<in> set (byName s m). tok_state (setState a st (heap s) ! b) = tok_state (heap s ! b)"
    using byName_members[OF assms(1), of _ m] assms(2) by (auto simp: state_setState)
  then have "\<And>q. scan (setState a st (heap s)) q (byName s m) = scan (heap s) q (byName s m)"
    by (rule scan_cong)
  moreover have "byName (s\<lparr>dirty := True, heap := setState a st (heap s)\<rparr>) m = byName s m"
    by (simp add: byName_def)
  ultimately show ?thesis by (simp add: findToClose_def split: option.splits)
qed

lemma loop_siblings:
  assumes "holding a s" "distinct names"
  shows "filter (\<lambda>c. tok_name (heap s ! c) = m)
           (closedOf (fold (closeFor a) names s) (tok_id (heap s ! a))) =
         filter (\<lambda>c. tok_name (heap s ! c) = m) (closedOf s (tok_id (heap s ! a))) @
         (if m \<in> set names \<and> m \<noteq> tok_name (heap s ! a)
          then (case findToClose s m of None \<Rightarrow> [] | Some c \<Rightarrow> [c]) else [])"
  using assms
proof (induction names arbitrary: s)
  case Nil
  show ?case by simp
next
  case (Cons n names)
  let ?s1 = "closeFor a n s"
  let ?i = "tok_id (heap s ! a)"
  have h1: "holding a ?s1" using Cons.prems(1) by (rule holding_closeFor)
  have d: "distinct names" "n \<notin> set names" using Cons.prems(2) by auto
  have IH: "filter (\<lambda>c. tok_name (heap s ! c) = m) (closedOf (fold (closeFor a) names ?s1) ?i) =
         filter (\<lambda>c. tok_name (heap s ! c) = m) (closedOf ?s1 ?i) @
         (if m \<in> set names \<and> m \<noteq> tok_name (heap s ! a)
          then (case findToClose ?s1 m of None \<Rightarrow> [] | Some c \<Rightarrow> [c]) else [])"
    using Cons.IH[OF h1 d(1)] by simp
  show ?case
  proof (cases "n = tok_name (heap s ! a) \<or> findToClose s n = None")
    case True
    then have e: "?s1 = s" by (rule closeFor_skips)
    show ?thesis
    proof (cases "m = n")
      case True
      with IH e d(2) \<open>n = tok_name (heap s ! a) \<or> findToClose s n = None\<close>
      show ?thesis by auto
    next
      case False
      with IH e show ?thesis by auto
    qed
  next
    case False
    then obtain c where c: "n \<noteq> tok_name (heap s ! a)" "findToClose s n = Some c" by auto
    note p = closeFor_picks[OF Cons.prems(1) c]
    have co: "closedOf ?s1 ?i = closedOf s ?i @ [c]"
      by (simp add: p(1) closedOf_def)
    show ?thesis
    proof (cases "m = n")
      case True
      with IH co d(2) c p(5) show ?thesis by simp
    next
      case False
      have inm: "inv_names s" using Cons.prems(1) by (simp add: holding_def wf_def)
      have "findToClose ?s1 m = findToClose s m"
        unfolding p(1) using inm p(5) False by (intro findToClose_other_name) auto
      with IH co False p(5) show ?thesis by simp
    qed
  qed
qed

lemma Use_siblings:
  assumes w: "wf s" and t: "tokens s i = Some a"
    and f: "tok_state (heap s ! a) = free \<or> tok_state (heap s ! a) = allocated"
    and d: "distinct names" and n: "n \<in> set names" "n \<noteq> tok_name (heap s ! a)"
  shows "closedSiblings (snd (Use s i names)) i n =
     (case findToClose s n of None \<Rightarrow> [] | Some c \<Rightarrow> [c])"
proof -
  let ?s0 = "s\<lparr>dirty := True, heap := setState a inUse (heap s)\<rparr>"
  let ?s' = "fold (closeFor a) names ?s0"
  note u = used[OF w t f, of names]
  have a: "tok_id (heap s ! a) = i" using w t by (rule wf_tokens_id)
  have h0: "holding a ?s0" using w t f by (rule holding_start)
  have c0: "closedOf ?s0 i = []"
    using wf_no_closure[OF w t] f by (auto simp: closedOf_def)
  have inm: "inv_names s" using w by (simp add: wf_def)
  have f0: "findToClose ?s0 n = findToClose s n"
    using inm n(2) by (intro findToClose_marked) auto
  have cl: "closedOf (snd (Use s i names)) i = closedOf ?s' i"
    by (simp add: Use_accepted[OF t f] closedOf_def fire_def)
  have "closedSiblings (snd (Use s i names)) i n =
      filter (\<lambda>c. tok_name (heap s ! c) = n) (closedOf (snd (Use s i names)) i)"
    unfolding closedSiblings_def
  proof (rule filter_cong[OF refl])
    fix c assume "c \<in> set (closedOf (snd (Use s i names)) i)"
    with u(7) have "heap (snd (Use s i names)) ! c = (heap s ! c)\<lparr>tok_state := closed\<rparr>"
      by blast
    then show "(tok_name (heap (snd (Use s i names)) ! c) = n \<and>
        tok_state (heap (snd (Use s i names)) ! c) = closed) = (tok_name (heap s ! c) = n)"
      by simp
  qed
  also have "\<dots> = filter (\<lambda>c. tok_name (heap ?s0 ! c) = n) (closedOf ?s' (tok_id (heap ?s0 ! a)))"
    by (simp add: cl a)
  also have "\<dots> = filter (\<lambda>c. tok_name (heap ?s0 ! c) = n) (closedOf ?s0 (tok_id (heap ?s0 ! a))) @
         (if n \<in> set names \<and> n \<noteq> tok_name (heap ?s0 ! a)
          then (case findToClose ?s0 n of None \<Rightarrow> [] | Some c \<Rightarrow> [c]) else [])"
    using h0 d by (rule loop_siblings)
  also have "\<dots> = (case findToClose s n of None \<Rightarrow> [] | Some c \<Rightarrow> [c])"
    using n c0 a f0 by simp
  finally show ?thesis .
qed

lemma wf_closed_once:
  assumes "wf s" "c < length (heap s)" "tok_state (heap s ! c) = closed"
  shows "\<exists>!k. c \<in> set (closedOf s k)"
proof -
  from assms obtain k cs where k: "closedTokens s k = Some cs" "c \<in> set cs"
    unfolding wf_def inv_owned_def by blast
  show ?thesis
  proof (rule ex1I[of _ k])
    show "c \<in> set (closedOf s k)" using k by (simp add: closedOf_def)
  next
    fix k' assume "c \<in> set (closedOf s k')"
    then obtain cs' where k': "closedTokens s k' = Some cs'" "c \<in> set cs'"
      by (cases "closedTokens s k'") (auto simp: closedOf_def)
    show "k' = k"
    proof (rule ccontr)
      assume "k' \<noteq> k"
      with assms(1) k(1) k'(1) have "set cs' \<inter> set cs = {}"
        unfolding wf_def inv_disj_def by blast
      with k(2) k'(2) show False by auto
    qed
  qed
qed

lemma wf_closure_distinct: "wf s \<Longrightarrow> distinct (closedOf s k)"
  by (cases "closedTokens s k") (auto simp: closedOf_def wf_def inv_closed_def)

lemma freed:
  assumes "wf s" "tokens s i = Some a" "tok_state (heap s ! a) = inUse"
  shows "\<forall>c \<in> set (closedOf s i). tok_state (heap (snd (Free s i)) ! c) = free"
  using stopped(3)[OF assms]
  by (simp add: Free_inUse[OF assms(2,3)] state_setState)

lemma busy22_run:
  "busy22 = run (NewPool pathJoin2 tokenIDs cfg22)
     [CallUse ''ttt'' [''d/b''], CallUse ''tttt'' [''d/b'']]"
  by (simp add: busy22_def pool22_def)

lemma busy22_eval: "busy22 =
  \<lparr>heap = [\<lparr>tok_id = ''t'', tok_name = ''d/a'', tok_state = free\<rparr>,
           \<lparr>tok_id = ''tt'', tok_name = ''d/a'', tok_state = free\<rparr>,
           \<lparr>tok_id = ''ttt'', tok_name = ''d/b'', tok_state = inUse\<rparr>,
           \<lparr>tok_id = ''tttt'', tok_name = ''d/b'', tok_state = inUse\<rparr>],
   tokens = [''t'' \<mapsto> 0, ''tt'' \<mapsto> 1, ''ttt'' \<mapsto> 2, ''tttt'' \<mapsto> 3],
   tokensByNames = [''d/a'' \<mapsto> [0, 1], ''d/b'' \<mapsto> [2, 3]],
   closedTokens = Map.empty, listeners = [], dirty = True, spawned = []\<rparr>"
  by (simp add: busy22_def pool22_eval run_def Use_def find_tok_def closeFor_def
      findToClose_def byName_def closedOf_def setState_def fire_def)

lemma busy22_facts:
  "tokens busy22 ''t'' = Some 0" "tok_state (heap busy22 ! 0) = free"
  "tok_name (heap busy22 ! 0) = ''d/a''" "byName busy22 ''d/b'' = [2, 3]"
  "tok_state (heap busy22 ! 2) = inUse" "tok_state (heap busy22 ! 3) = inUse"
  by (simp_all add: busy22_eval byName_def)

lemma used22_more:
  "length (heap used22) = 4" "tok_id (heap used22 ! 0) = ''t''"
  by (simp_all add: used22_eval)

lemma granted22_more:
  "tok_name (heap granted22 ! 0) = ''d/a''" "byName granted22 ''d/b'' = [2, 3]"
  by (simp_all add: granted22_eval byName_def)

section \<open>Claim C1: the closure invariant\<close>

text \<open>
  Claim C1. In every pool reached from \<open>NewPool\<close> by public operations:
  for every token in use, each token in its closure list is closed; every closed token
  is in exactly one closure list, once. When \<open>Use\<close> with pairwise distinct names
  succeeds on a token, then for each name \<open>n\<close> of the list other than the token's own
  the closure list of the token holds exactly one closed token of name \<open>n\<close> if a free
  or allocated token of that name existed before the call, and none otherwise. When a
  token in use leaves that state by \<open>StopUsing\<close>, \<open>Free\<close> or \<open>Allocate\<close>, every token of
  its closure list is free afterwards.
\<close>

theorem C1_closure_invariant:
  assumes "s = run (NewPool pathJoin newTokenID cfg) calls"
  shows
   "(\<forall>a < length (heap s). tok_state (heap s ! a) = inUse \<longrightarrow>
       (\<forall>c \<in> set (closedOf s (tok_id (heap s ! a))).
          c < length (heap s) \<and> tok_state (heap s ! c) = closed)) \<and>
    (\<forall>c < length (heap s). tok_state (heap s ! c) = closed \<longrightarrow>
       (\<exists>!k. c \<in> set (closedOf s k))) \<and>
    (\<forall>k. distinct (closedOf s k)) \<and>
    (\<forall>i a names. tokens s i = Some a \<longrightarrow>
       tok_state (heap s ! a) = free \<or> tok_state (heap s ! a) = allocated \<longrightarrow>
       distinct names \<longrightarrow>
       (\<forall>n \<in> set names. n \<noteq> tok_name (heap s ! a) \<longrightarrow>
          length (closedSiblings (snd (Use s i names)) i n) =
            (if \<exists>c \<in> set (byName s n).
                  tok_state (heap s ! c) = free \<or> tok_state (heap s ! c) = allocated
             then 1 else 0))) \<and>
    (\<forall>i a. tokens s i = Some a \<longrightarrow> tok_state (heap s ! a) = inUse \<longrightarrow>
       (\<forall>c \<in> set (closedOf s i).
          tok_state (heap (snd (StopUsing s i)) ! c) = free \<and>
          tok_state (heap (snd (Free s i)) ! c) = free \<and>
          tok_state (heap (snd (Allocate s i)) ! c) = free))"
proof -
  have w: "wf s" using assms by (simp add: wf_run)
  have 1: "\<forall>a < length (heap s). tok_state (heap s ! a) = inUse \<longrightarrow>
       (\<forall>c \<in> set (closedOf s (tok_id (heap s ! a))).
          c < length (heap s) \<and> tok_state (heap s ! c) = closed)"
    using closedOf_members[of s] w by (simp add: wf_def)
  have 2: "\<forall>c < length (heap s). tok_state (heap s ! c) = closed \<longrightarrow>
       (\<exists>!k. c \<in> set (closedOf s k))"
    using wf_closed_once[OF w] by blast
  have 3: "\<forall>k. distinct (closedOf s k)"
    using w by (simp add: wf_closure_distinct)
  have 4: "\<forall>i a names. tokens s i = Some a \<longrightarrow>
       tok_state (heap s ! a) = free \<or> tok_state (heap s ! a) = allocated \<longrightarrow>
       distinct names \<longrightarrow>
       (\<forall>n \<in> set names. n \<noteq> tok_name (heap s ! a) \<longrightarrow>
          length (closedSiblings (snd (Use s i names)) i n) =
            (if \<exists>c \<in> set (byName s n).
                  tok_state (heap s ! c) = free \<or> tok_state (heap s ! c) = allocated
             then 1 else 0))"
  proof (intro allI impI ballI)
    fix i a names n
    assume h: "tokens s i = Some a"
      "tok_state (heap s ! a) = free \<or> tok_state (heap s ! a) = allocated"
      "distinct names" "n \<in> set names" "n \<noteq> tok_name (heap s ! a)"
    have e: "closedSiblings (snd (Use s i names)) i n =
        (case findToClose s n of None \<Rightarrow> [] | Some c \<Rightarrow> [c])"
      using w h by (rule Use_siblings)
    show "length (closedSiblings (snd (Use s i names)) i n) =
            (if \<exists>c \<in> set (byName s n).
                  tok_state (heap s ! c) = free \<or> tok_state (heap s ! c) = allocated
             then 1 else 0)"
    proof (cases "findToClose s n")
      case None
      then have "\<forall>c \<in> set (byName s n).
          tok_state (heap s ! c) \<noteq> free \<and> tok_state (heap s ! c) \<noteq> allocated"
        using findToClose_None_iff[of s n] by simp
      then show ?thesis using e None by auto
    next
      case (Some c)
      then have "\<not> (\<forall>c \<in> set (byName s n).
          tok_state (heap s ! c) \<noteq> free \<and> tok_state (heap s ! c) \<noteq> allocated)"
        using findToClose_None_iff[of s n] by simp
      then show ?thesis using e Some by auto
    qed
  qed
  have 5: "\<forall>i a. tokens s i = Some a \<longrightarrow> tok_state (heap s ! a) = inUse \<longrightarrow>
       (\<forall>c \<in> set (closedOf s i).
          tok_state (heap (snd (StopUsing s i)) ! c) = free \<and>
          tok_state (heap (snd (Free s i)) ! c) = free \<and>
          tok_state (heap (snd (Allocate s i)) ! c) = free)"
  proof (intro allI impI ballI)
    fix i a c
    assume h: "tokens s i = Some a" "tok_state (heap s ! a) = inUse" "c \<in> set (closedOf s i)"
    show "tok_state (heap (snd (StopUsing s i)) ! c) = free \<and>
          tok_state (heap (snd (Free s i)) ! c) = free \<and>
          tok_state (heap (snd (Allocate s i)) ! c) = free"
      using stopped(3)[OF w h(1,2)] freed[OF w h(1,2)] Allocate_inUse[OF h(1,2)] h(3)
      by simp
  qed
  from 1 2 3 4 5 show ?thesis by blast
qed

text \<open>
  In the example pools: token \<open>t\<close> in use with the closed token 2 in its list; a \<open>Use\<close>
  that finds an allocated token of \<open>d/b\<close> to close and one that finds none; and the
  three ways out of the state in use.
\<close>

theorem C1_closure_invariant_witness:
  "tok_state (heap used22 ! 0) = inUse \<and>
   closedOf used22 (tok_id (heap used22 ! 0)) = [2] \<and>
   tok_state (heap used22 ! 2) = closed \<and>
   (\<exists>!k. 2 \<in> set (closedOf used22 k)) \<and>
   tokens granted22 ''t'' = Some 0 \<and> tok_state (heap granted22 ! 0) = free \<and>
   tok_state (heap granted22 ! 2) = allocated \<and>
   length (closedSiblings (snd (Use granted22 ''t'' [''d/a'', ''d/b''])) ''t'' ''d/b'') = 1 \<and>
   tokens busy22 ''t'' = Some 0 \<and> tok_state (heap busy22 ! 0) = free \<and>
   tok_state (heap busy22 ! 2) = inUse \<and> tok_state (heap busy22 ! 3) = inUse \<and>
   length (closedSiblings (snd (Use busy22 ''t'' [''d/a'', ''d/b''])) ''t'' ''d/b'') = 0 \<and>
   tokens used22 ''t'' = Some 0 \<and>
   tok_state (heap (snd (StopUsing used22 ''t'')) ! 2) = free \<and>
   tok_state (heap (snd (Free used22 ''t'')) ! 2) = free \<and>
   tok_state (heap (snd (Allocate used22 ''t'')) ! 2) = free"
proof -
  note U = C1_closure_invariant [OF used22_run]
  note G = C1_closure_invariant [OF granted22_run]
  note B = C1_closure_invariant [OF busy22_run]
  have lt: "0 < length (heap used22)" "2 < length (heap used22)"
    by (simp_all add: used22_more)
  have "\<forall>c \<in> set (closedOf used22 (tok_id (heap used22 ! 0))).
      c < length (heap used22) \<and> tok_state (heap used22 ! c) = closed"
    using U used22_facts(4) lt(1) by blast
  then have 1: "tok_state (heap used22 ! 2) = closed"
    by (simp add: used22_more used22_facts)
  have 2: "\<exists>!k. 2 \<in> set (closedOf used22 k)"
    using U 1 lt(2) by blast
  have g: "distinct [''d/a'', ''d/b'']" "''d/b'' \<in> set [''d/a'', ''d/b'']"
    "''d/b'' \<noteq> tok_name (heap granted22 ! 0)" "''d/b'' \<noteq> tok_name (heap busy22 ! 0)"
    "tok_state (heap granted22 ! 0) = free \<or> tok_state (heap granted22 ! 0) = allocated"
    "tok_state (heap busy22 ! 0) = free \<or> tok_state (heap busy22 ! 0) = allocated"
    by (simp_all add: granted22_more granted22_facts busy22_facts)
  have "length (closedSiblings (snd (Use granted22 ''t'' [''d/a'', ''d/b''])) ''t'' ''d/b'') =
      (if \<exists>c \<in> set (byName granted22 ''d/b'').
            tok_state (heap granted22 ! c) = free \<or> tok_state (heap granted22 ! c) = allocated
       then 1 else 0)"
    using G granted22_facts(1) g(1,2,3,5) by blast
  then have 3: "length (closedSiblings (snd (Use granted22 ''t'' [''d/a'', ''d/b''])) ''t'' ''d/b'') = 1"
    by (simp add: granted22_more granted22_facts)
  have "length (closedSiblings (snd (Use busy22 ''t'' [''d/a'', ''d/b''])) ''t'' ''d/b'') =
      (if \<exists>c \<in> set (byName busy22 ''d/b'').
            tok_state (heap busy22 ! c) = free \<or> tok_state (heap busy22 ! c) = allocated
       then 1 else 0)"
    using B busy22_facts(1) g(1,2,4,6) by blast
  then have 4: "length (closedSiblings (snd (Use busy22 ''t'' [''d/a'', ''d/b''])) ''t'' ''d/b'') = 0"
    by (simp add: busy22_facts)
  have "\<forall>c \<in> set (closedOf used22 ''t'').
          tok_state (heap (snd (StopUsing used22 ''t'')) ! c) = free \<and>
          tok_state (heap (snd (Free used22 ''t'')) ! c) = free \<and>
          tok_state (heap (snd (Allocate used22 ''t'')) ! c) = free"
    using U used22_facts(1,4) by blast
  then have 5: "tok_state (heap (snd (StopUsing used22 ''t'')) ! 2) = free \<and>
      tok_state (heap (snd (Free used22 ''t'')) ! 2) = free \<and>
      tok_state (heap (snd (Allocate used22 ''t'')) ! 2) = free"
    by (simp add: used22_facts)
  from 1 2 3 4 5 show ?thesis
    by (simp add: used22_facts used22_more granted22_facts busy22_facts)
qed

text \<open>
  Claim C1 does not hold in the stronger form "exactly one closed sibling under each
  other name, whatever the pool holds". In the example pool with both tokens of \<open>d/b\<close>
  in use, \<open>Use t [d/a, d/b]\<close> succeeds and puts token \<open>t\<close> in use, yet no token of
  \<open>d/b\<close> is closed for it: \<open>findToClose\<close> found neither a free nor an allocated one and
  the loop went on. Three tokens are then in use in a pool made for two virtual
  functions.
\<close>

theorem C1_counterexample:
  "tok_name (heap busy22 ! 0) = ''d/a'' \<and>
   fst (Use busy22 ''t'' [''d/a'', ''d/b'']) = None \<and>
   tok_state (heap (snd (Use busy22 ''t'' [''d/a'', ''d/b''])) ! 0) = inUse \<and>
   tok_state (heap (snd (Use busy22 ''t'' [''d/a'', ''d/b''])) ! 2) = inUse \<and>
   tok_state (heap (snd (Use busy22 ''t'' [''d/a'', ''d/b''])) ! 3) = inUse \<and>
   closedTokens (snd (Use busy22 ''t'' [''d/a'', ''d/b''])) ''t'' = None \<and>
   closedSiblings (snd (Use busy22 ''t'' [''d/a'', ''d/b''])) ''t'' ''d/b'' = []"
  by (simp add: busy22_eval closedSiblings_def Use_def find_tok_def closeFor_def
      findToClose_def byName_def closedOf_def setState_def fire_def)

section \<open>Claim C2: Use\<close>

text \<open>
  Claim C2. On a known identifier of a reachable pool, \<open>Use\<close> on a token that is in use
  or closed fails with the error "token is inUse/closed" and leaves the pool as it was.
  On a free or allocated token it succeeds and the token is in use afterwards. The
  names are handled one after the other: with no names the pool only gets the token
  marked; a further name \<open>n\<close> changes nothing when it is the name of the token or when
  \<open>findToClose\<close> finds no token for it, and otherwise closes the one token that
  \<open>findToClose\<close> returns and appends it to the closure list of the identifier. So the
  closure list holds at most one token for each name other than the token's own.
  \<open>findToClose\<close> returns the first free token of the name in insertion order, the first
  allocated one when none is free, and nothing when there is neither, in particular for
  a name the pool does not know.
\<close>

theorem C2_Use:
  assumes "s = run (NewPool pathJoin newTokenID cfg) calls" and "tokens s i = Some a"
  shows
   "(tok_state (heap s ! a) = inUse \<or> tok_state (heap s ! a) = closed \<longrightarrow>
       Use s i names =
         (Some (TokenIs (tok_state (heap s ! a)) (tok_name (heap s ! a)) i), s)) \<and>
    (tok_state (heap s ! a) = free \<or> tok_state (heap s ! a) = allocated \<longrightarrow>
       fst (Use s i names) = None \<and>
       snd (Use s i []) =
         fire (s\<lparr>dirty := True, heap := (heap s)[a := (heap s ! a)\<lparr>tok_state := inUse\<rparr>]\<rparr>) \<and>
       (let s1 = snd (Use s i names); s2 = snd (Use s i (names @ [n])) in
          tok_state (heap s1 ! a) = inUse \<and>
          (n = tok_name (heap s ! a) \<longrightarrow> s2 = s1) \<and>
          (n \<noteq> tok_name (heap s ! a) \<longrightarrow> findToClose s1 n = None \<longrightarrow> s2 = s1) \<and>
          (n \<noteq> tok_name (heap s ! a) \<longrightarrow>
             (\<forall>c. findToClose s1 n = Some c \<longrightarrow>
                s2 = s1\<lparr>heap := (heap s1)[c := (heap s1 ! c)\<lparr>tok_state := closed\<rparr>],
                        closedTokens := (closedTokens s1)(i \<mapsto> closedOf s1 i @ [c])\<rparr>))) \<and>
       length (closedOf (snd (Use s i names)) i) \<le>
         length (filter (\<lambda>n. n \<noteq> tok_name (heap s ! a)) names)) \<and>
    (\<forall>p m c. findToClose p m = Some c \<longleftrightarrow>
       (\<exists>k < length (byName p m). byName p m ! k = c \<and>
          (tok_state (heap p ! c) = free \<and>
             (\<forall>j < k. tok_state (heap p ! (byName p m ! j)) \<noteq> free) \<or>
           tok_state (heap p ! c) = allocated \<and>
             (\<forall>j < length (byName p m). tok_state (heap p ! (byName p m ! j)) \<noteq> free) \<and>
             (\<forall>j < k. tok_state (heap p ! (byName p m ! j)) \<noteq> allocated)))) \<and>
    (\<forall>p m. tokensByNames p m = None \<longrightarrow> findToClose p m = None)"
proof -
  have w: "wf s" using assms(1) by (simp add: wf_run)
  have a: "a < length (heap s)" "tok_id (heap s ! a) = i"
    using w assms(2) by (simp_all add: wf_tokens_valid wf_tokens_id)
  have 1: "tok_state (heap s ! a) = inUse \<or> tok_state (heap s ! a) = closed \<longrightarrow>
       Use s i names =
         (Some (TokenIs (tok_state (heap s ! a)) (tok_name (heap s ! a)) i), s)"
  proof
    assume r: "tok_state (heap s ! a) = inUse \<or> tok_state (heap s ! a) = closed"
    then have "s\<lparr>dirty := True\<rparr> = s" using wf_touched[OF w assms(2)] by auto
    with Use_refused[OF assms(2) r, of names] a(2)
    show "Use s i names =
         (Some (TokenIs (tok_state (heap s ! a)) (tok_name (heap s ! a)) i), s)" by simp
  qed
  have 2: "tok_state (heap s ! a) = free \<or> tok_state (heap s ! a) = allocated \<longrightarrow>
       fst (Use s i names) = None \<and>
       snd (Use s i []) =
         fire (s\<lparr>dirty := True, heap := (heap s)[a := (heap s ! a)\<lparr>tok_state := inUse\<rparr>]\<rparr>) \<and>
       (let s1 = snd (Use s i names); s2 = snd (Use s i (names @ [n])) in
          tok_state (heap s1 ! a) = inUse \<and>
          (n = tok_name (heap s ! a) \<longrightarrow> s2 = s1) \<and>
          (n \<noteq> tok_name (heap s ! a) \<longrightarrow> findToClose s1 n = None \<longrightarrow> s2 = s1) \<and>
          (n \<noteq> tok_name (heap s ! a) \<longrightarrow>
             (\<forall>c. findToClose s1 n = Some c \<longrightarrow>
                s2 = s1\<lparr>heap := (heap s1)[c := (heap s1 ! c)\<lparr>tok_state := closed\<rparr>],
                        closedTokens := (closedTokens s1)(i \<mapsto> closedOf s1 i @ [c])\<rparr>))) \<and>
       length (closedOf (snd (Use s i names)) i) \<le>
         length (filter (\<lambda>n. n \<noteq> tok_name (heap s ! a)) names)"
  proof
    assume f: "tok_state (heap s ! a) = free \<or> tok_state (heap s ! a) = allocated"
    let ?s1 = "snd (Use s i names)"
    let ?s2 = "snd (Use s i (names @ [n]))"
    let ?s0 = "s\<lparr>dirty := True, heap := setState a inUse (heap s)\<rparr>"
    note u = used[OF w assms(2) f, of names]
    have sn: "?s2 = closeFor a n ?s1" using assms(2) f by (rule Use_snoc)
    have nm: "tok_name (heap ?s1 ! a) = tok_name (heap s ! a)"
      "tok_id (heap ?s1 ! a) = i" "tok_state (heap ?s1 ! a) = inUse"
      using u(6) a(2) by simp_all
    have b0: "snd (Use s i []) =
         fire (s\<lparr>dirty := True, heap := (heap s)[a := (heap s ! a)\<lparr>tok_state := inUse\<rparr>]\<rparr>)"
      by (simp add: Use_accepted[OF assms(2) f] setState_def)
    have c0: "closedOf ?s0 i = []"
      using wf_no_closure[OF w assms(2)] f by (auto simp: closedOf_def)
    have "length (closedOf (fold (closeFor a) names ?s0) (tok_id (heap ?s0 ! a))) \<le>
        length (closedOf ?s0 (tok_id (heap ?s0 ! a))) +
        length (filter (\<lambda>n. n \<noteq> tok_name (heap ?s0 ! a)) names)"
      by (rule closures_bounded)
    then have bd: "length (closedOf ?s1 i) \<le> length (filter (\<lambda>n. n \<noteq> tok_name (heap s ! a)) names)"
      using a(2) c0 by (simp add: Use_accepted[OF assms(2) f] fire_def closedOf_def)
    have s1: "n = tok_name (heap s ! a) \<longrightarrow> ?s2 = ?s1"
    proof
      assume "n = tok_name (heap s ! a)"
      then have "closeFor a n ?s1 = ?s1" using nm(1) by (intro closeFor_skips) simp
      then show "?s2 = ?s1" by (simp only: sn)
    qed
    have s2: "n \<noteq> tok_name (heap s ! a) \<longrightarrow> findToClose ?s1 n = None \<longrightarrow> ?s2 = ?s1"
      by (simp add: sn closeFor_skips)
    have s3: "n \<noteq> tok_name (heap s ! a) \<longrightarrow>
             (\<forall>c. findToClose ?s1 n = Some c \<longrightarrow>
                ?s2 = ?s1\<lparr>heap := (heap ?s1)[c := (heap ?s1 ! c)\<lparr>tok_state := closed\<rparr>],
                        closedTokens := (closedTokens ?s1)(i \<mapsto> closedOf ?s1 i @ [c])\<rparr>)"
      using nm(1,2) by (simp add: sn closeFor_def Let_def setState_def)
    show "fst (Use s i names) = None \<and>
       snd (Use s i []) =
         fire (s\<lparr>dirty := True, heap := (heap s)[a := (heap s ! a)\<lparr>tok_state := inUse\<rparr>]\<rparr>) \<and>
       (let s1 = snd (Use s i names); s2 = snd (Use s i (names @ [n])) in
          tok_state (heap s1 ! a) = inUse \<and>
          (n = tok_name (heap s ! a) \<longrightarrow> s2 = s1) \<and>
          (n \<noteq> tok_name (heap s ! a) \<longrightarrow> findToClose s1 n = None \<longrightarrow> s2 = s1) \<and>
          (n \<noteq> tok_name (heap s ! a) \<longrightarrow>
             (\<forall>c. findToClose s1 n = Some c \<longrightarrow>
                s2 = s1\<lparr>heap := (heap s1)[c := (heap s1 ! c)\<lparr>tok_state := closed\<rparr>],
                        closedTokens := (closedTokens s1)(i \<mapsto> closedOf s1 i @ [c])\<rparr>))) \<and>
       length (closedOf (snd (Use s i names)) i) \<le>
         length (filter (\<lambda>n. n \<noteq> tok_name (heap s ! a)) names)"
      unfolding Let_def using u(1) b0 nm(3) s1 s2 s3 bd by blast
  qed
  have 3: "\<forall>p m c. findToClose p m = Some c \<longleftrightarrow>
       (\<exists>k < length (byName p m). byName p m ! k = c \<and>
          (tok_state (heap p ! c) = free \<and>
             (\<forall>j < k. tok_state (heap p ! (byName p m ! j)) \<noteq> free) \<or>
           tok_state (heap p ! c) = allocated \<and>
             (\<forall>j < length (byName p m). tok_state (heap p ! (byName p m ! j)) \<noteq> free) \<and>
             (\<forall>j < k. tok_state (heap p ! (byName p m ! j)) \<noteq> allocated)))"
    by (intro allI findToClose_iff)
  have 4: "\<forall>p m. tokensByNames p m = None \<longrightarrow> findToClose p m = None"
    by (simp add: findToClose_unknown)
  from 1 2 3 4 show ?thesis by blast
qed

text \<open>
  In the example pool after \<open>Use t [d/a, d/b]\<close> the token \<open>t\<close> is in use and a second
  \<open>Use\<close> is refused. In the example pool with both tokens of \<open>d/b\<close> allocated, \<open>Use\<close> on
  the free token \<open>t\<close> closes the first allocated token of \<open>d/b\<close>.
\<close>

theorem C2_Use_witness:
  "tokens used22 ''t'' = Some 0 \<and> tok_state (heap used22 ! 0) = inUse \<and>
   Use used22 ''t'' [''d/a'', ''d/b''] = (Some (TokenIs inUse ''d/a'' ''t''), used22) \<and>
   tokens granted22 ''t'' = Some 0 \<and> tok_state (heap granted22 ! 0) = free \<and>
   fst (Use granted22 ''t'' [''d/a'']) = None \<and>
   tok_state (heap (snd (Use granted22 ''t'' [''d/a''])) ! 0) = inUse \<and>
   findToClose (snd (Use granted22 ''t'' [''d/a''])) ''d/b'' = Some 2 \<and>
   snd (Use granted22 ''t'' ([''d/a''] @ [''d/b''])) =
     (snd (Use granted22 ''t'' [''d/a'']))
       \<lparr>heap := (heap (snd (Use granted22 ''t'' [''d/a''])))
                  [2 := (heap (snd (Use granted22 ''t'' [''d/a''])) ! 2)\<lparr>tok_state := closed\<rparr>],
        closedTokens := (closedTokens (snd (Use granted22 ''t'' [''d/a''])))
                  (''t'' \<mapsto> closedOf (snd (Use granted22 ''t'' [''d/a''])) ''t'' @ [2])\<rparr> \<and>
   tokensByNames granted22 ''e/x'' = None \<and> findToClose granted22 ''e/x'' = None"
proof -
  note refused = C2_Use [OF used22_run used22_facts(1), of "[''d/a'', ''d/b'']"]
  note accepted = C2_Use [OF granted22_run granted22_facts(1), of "[''d/a'']" "''d/b''",
      unfolded Let_def]
  have u: "tok_state (heap used22 ! 0) = inUse \<or> tok_state (heap used22 ! 0) = closed"
    by (simp add: used22_facts)
  have f: "tok_state (heap granted22 ! 0) = free \<or> tok_state (heap granted22 ! 0) = allocated"
    by (simp add: granted22_facts)
  have n: "''d/b'' \<noteq> tok_name (heap granted22 ! 0)"
    by (simp add: granted22_use)
  have "Use used22 ''t'' [''d/a'', ''d/b''] =
      (Some (TokenIs (tok_state (heap used22 ! 0)) (tok_name (heap used22 ! 0)) ''t''), used22)"
    using refused u by blast
  then have 1: "Use used22 ''t'' [''d/a'', ''d/b''] = (Some (TokenIs inUse ''d/a'' ''t''), used22)"
    by (simp add: used22_facts)
  have 2: "fst (Use granted22 ''t'' [''d/a'']) = None"
    "tok_state (heap (snd (Use granted22 ''t'' [''d/a''])) ! 0) = inUse"
    using accepted f by blast+
  have 3: "snd (Use granted22 ''t'' ([''d/a''] @ [''d/b''])) =
     (snd (Use granted22 ''t'' [''d/a'']))
       \<lparr>heap := (heap (snd (Use granted22 ''t'' [''d/a''])))
                  [2 := (heap (snd (Use granted22 ''t'' [''d/a''])) ! 2)\<lparr>tok_state := closed\<rparr>],
        closedTokens := (closedTokens (snd (Use granted22 ''t'' [''d/a''])))
                  (''t'' \<mapsto> closedOf (snd (Use granted22 ''t'' [''d/a''])) ''t'' @ [2])\<rparr>"
    using accepted f n granted22_use(2) by blast
  have 4: "findToClose granted22 ''e/x'' = None"
    using accepted granted22_use(3) by blast
  from 1 2 3 4 show ?thesis
    by (simp add: used22_facts granted22_facts granted22_use)
qed

section \<open>Claim C3: the transitions of Allocate\<close>

text \<open>
  Claim C3. On a known identifier: a free or allocated token becomes allocated and
  nothing else changes but the dirty flag; for a token in use \<open>Allocate\<close> is
  \<open>StopUsing\<close>, so the token ends allocated, its closure list is freed and its entry
  removed; a closed token makes the call fail with the error "token is closed" and the
  pool stays as it was.
\<close>

theorem C3_Allocate:
  assumes "s = run (NewPool pathJoin newTokenID cfg) calls" and "tokens s i = Some a"
  shows "let s' = snd (Allocate s i) in
    (tok_state (heap s ! a) = free \<or> tok_state (heap s ! a) = allocated \<longrightarrow>
       Allocate s i =
         (None, s\<lparr>dirty := True, heap := (heap s)[a := (heap s ! a)\<lparr>tok_state := allocated\<rparr>]\<rparr>) \<and>
       tok_state (heap s' ! a) = allocated) \<and>
    (tok_state (heap s ! a) = inUse \<longrightarrow>
       Allocate s i = StopUsing s i \<and> fst (Allocate s i) = None \<and>
       tok_state (heap s' ! a) = allocated \<and>
       (\<forall>c \<in> set (closedOf s i). tok_state (heap s' ! c) = free) \<and>
       closedTokens s' = (closedTokens s)(i := None) \<and>
       (\<forall>b. b \<noteq> a \<longrightarrow> b \<notin> set (closedOf s i) \<longrightarrow> heap s' ! b = heap s ! b)) \<and>
    (tok_state (heap s ! a) = closed \<longrightarrow>
       Allocate s i = (Some (TokenIsClosed (tok_name (heap s ! a)) i), s))"
proof -
  have w: "wf s" using assms(1) by (simp add: wf_run)
  have a: "a < length (heap s)" "tok_id (heap s ! a) = i"
    using w assms(2) by (simp_all add: wf_tokens_valid wf_tokens_id)
  have 1: "tok_state (heap s ! a) = free \<or> tok_state (heap s ! a) = allocated \<longrightarrow>
       Allocate s i =
         (None, s\<lparr>dirty := True, heap := (heap s)[a := (heap s ! a)\<lparr>tok_state := allocated\<rparr>]\<rparr>) \<and>
       tok_state (heap (snd (Allocate s i)) ! a) = allocated"
    using assms(2) a by (auto simp: Allocate_def find_tok_def setState_def)
  have 2: "tok_state (heap s ! a) = inUse \<longrightarrow>
       Allocate s i = StopUsing s i \<and> fst (Allocate s i) = None \<and>
       tok_state (heap (snd (Allocate s i)) ! a) = allocated \<and>
       (\<forall>c \<in> set (closedOf s i). tok_state (heap (snd (Allocate s i)) ! c) = free) \<and>
       closedTokens (snd (Allocate s i)) = (closedTokens s)(i := None) \<and>
       (\<forall>b. b \<noteq> a \<longrightarrow> b \<notin> set (closedOf s i) \<longrightarrow> heap (snd (Allocate s i)) ! b = heap s ! b)"
    using stopped(1-5)[OF w assms(2)] Allocate_inUse[OF assms(2)] by simp
  have 3: "tok_state (heap s ! a) = closed \<longrightarrow>
       Allocate s i = (Some (TokenIsClosed (tok_name (heap s ! a)) i), s)"
    using assms(2) a wf_touched[OF w assms(2)]
    by (simp add: Allocate_def find_tok_def)
  show ?thesis unfolding Let_def using 1 2 3 by blast
qed

text \<open>
  The three rows in the example pool after \<open>Use t [d/a, d/b]\<close>: \<open>tt\<close> is free, \<open>t\<close> is in
  use, \<open>ttt\<close> is closed.
\<close>

theorem C3_Allocate_witness:
  "tokens used22 ''tt'' = Some 1 \<and> tok_state (heap used22 ! 1) = free \<and>
   fst (Allocate used22 ''tt'') = None \<and>
   tok_state (heap (snd (Allocate used22 ''tt'')) ! 1) = allocated \<and>
   tokens used22 ''t'' = Some 0 \<and> tok_state (heap used22 ! 0) = inUse \<and>
   closedOf used22 ''t'' = [2] \<and>
   fst (Allocate used22 ''t'') = None \<and>
   tok_state (heap (snd (Allocate used22 ''t'')) ! 0) = allocated \<and>
   tok_state (heap (snd (Allocate used22 ''t'')) ! 2) = free \<and>
   closedTokens (snd (Allocate used22 ''t'')) ''t'' = None \<and>
   tokens used22 ''ttt'' = Some 2 \<and> tok_state (heap used22 ! 2) = closed \<and>
   Allocate used22 ''ttt'' = (Some (TokenIsClosed ''d/b'' ''ttt''), used22)"
proof -
  note free = C3_Allocate [OF used22_run used22_facts(2), unfolded Let_def]
  note used = C3_Allocate [OF used22_run used22_facts(1), unfolded Let_def]
  note shut = C3_Allocate [OF used22_run used22_facts(3), unfolded Let_def]
  have "Allocate used22 ''tt'' =
      (None, used22\<lparr>dirty := True,
         heap := (heap used22)[Suc 0 := (heap used22 ! Suc 0)\<lparr>tok_state := allocated\<rparr>]\<rparr>) \<and>
     tok_state (heap (snd (Allocate used22 ''tt'')) ! Suc 0) = allocated"
    using free used22_facts(5) by blast
  then have 1: "fst (Allocate used22 ''tt'') = None \<and>
     tok_state (heap (snd (Allocate used22 ''tt'')) ! 1) = allocated"
    by (metis One_nat_def fst_conv)
  have "fst (Allocate used22 ''t'') = None \<and>
     tok_state (heap (snd (Allocate used22 ''t'')) ! 0) = allocated \<and>
     (\<forall>c \<in> set (closedOf used22 ''t''). tok_state (heap (snd (Allocate used22 ''t'')) ! c) = free) \<and>
     closedTokens (snd (Allocate used22 ''t'')) = (closedTokens used22)(''t'' := None)"
    using used used22_facts(4) by blast
  then have 2: "fst (Allocate used22 ''t'') = None \<and>
     tok_state (heap (snd (Allocate used22 ''t'')) ! 0) = allocated \<and>
     tok_state (heap (snd (Allocate used22 ''t'')) ! 2) = free \<and>
     closedTokens (snd (Allocate used22 ''t'')) ''t'' = None"
    by (simp add: used22_facts(12))
  have 3: "Allocate used22 ''ttt'' = (Some (TokenIsClosed ''d/b'' ''ttt''), used22)"
    using shut by (simp add: used22_facts)
  from 1 2 3 show ?thesis by (simp add: used22_facts)
qed

section \<open>Claim C4: the transitions of Free\<close>

text \<open>
  Claim C4. On a known identifier \<open>Free\<close> always returns nil: a free or allocated
  token ends free and nothing else changes but the dirty flag; a token in use is
  stopped first (it becomes allocated, its closure list is freed and its entry removed)
  and then set free; for a closed token the pool stays as it was.
\<close>

theorem C4_Free:
  assumes "s = run (NewPool pathJoin newTokenID cfg) calls" and "tokens s i = Some a"
  shows "let s' = snd (Free s i) in
    fst (Free s i) = None \<and>
    (tok_state (heap s ! a) = free \<or> tok_state (heap s ! a) = allocated \<longrightarrow>
       Free s i =
         (None, s\<lparr>dirty := True, heap := (heap s)[a := (heap s ! a)\<lparr>tok_state := free\<rparr>]\<rparr>) \<and>
       tok_state (heap s' ! a) = free) \<and>
    (tok_state (heap s ! a) = inUse \<longrightarrow>
       tok_state (heap (snd (StopUsing s i)) ! a) = allocated \<and>
       heap s' = (heap (snd (StopUsing s i)))[a := (heap s ! a)\<lparr>tok_state := free\<rparr>] \<and>
       tok_state (heap s' ! a) = free \<and>
       (\<forall>c \<in> set (closedOf s i). tok_state (heap s' ! c) = free) \<and>
       closedTokens s' = (closedTokens s)(i := None) \<and>
       (\<forall>b. b \<noteq> a \<longrightarrow> b \<notin> set (closedOf s i) \<longrightarrow> heap s' ! b = heap s ! b)) \<and>
    (tok_state (heap s ! a) = closed \<longrightarrow> Free s i = (None, s))"
proof -
  have w: "wf s" using assms(1) by (simp add: wf_run)
  have a: "a < length (heap s)" "tok_id (heap s ! a) = i"
    using w assms(2) by (simp_all add: wf_tokens_valid wf_tokens_id)
  have 0: "fst (Free s i) = None"
    using assms(2) by (simp add: Free_def find_tok_def Let_def split: state.splits)
  have 1: "tok_state (heap s ! a) = free \<or> tok_state (heap s ! a) = allocated \<longrightarrow>
       Free s i =
         (None, s\<lparr>dirty := True, heap := (heap s)[a := (heap s ! a)\<lparr>tok_state := free\<rparr>]\<rparr>) \<and>
       tok_state (heap (snd (Free s i)) ! a) = free"
    using assms(2) a by (auto simp: Free_def find_tok_def setState_def)
  have 2: "tok_state (heap s ! a) = inUse \<longrightarrow>
       tok_state (heap (snd (StopUsing s i)) ! a) = allocated \<and>
       heap (snd (Free s i)) = (heap (snd (StopUsing s i)))[a := (heap s ! a)\<lparr>tok_state := free\<rparr>] \<and>
       tok_state (heap (snd (Free s i)) ! a) = free \<and>
       (\<forall>c \<in> set (closedOf s i). tok_state (heap (snd (Free s i)) ! c) = free) \<and>
       closedTokens (snd (Free s i)) = (closedTokens s)(i := None) \<and>
       (\<forall>b. b \<noteq> a \<longrightarrow> b \<notin> set (closedOf s i) \<longrightarrow> heap (snd (Free s i)) ! b = heap s ! b)"
  proof
    assume u: "tok_state (heap s ! a) = inUse"
    let ?t = "snd (StopUsing s i)"
    note st = stopped[OF w assms(2) u]
    have d: "StopUsing s i = stopUsing s i"
      using u wf_touched[OF w assms(2)] by (simp add: StopUsing_def)
    have l: "length (heap ?t) = length (heap s)"
      using stopUsing_fields(6)[OF w assms(2) u] by (simp add: d)
    have ha: "heap ?t ! a = (heap s ! a)\<lparr>tok_state := allocated\<rparr>"
      using stopUsing_heap[OF w assms(2) u, of a] by (simp add: d)
    have f: "Free s i = (None, ?t\<lparr>heap := setState a free (heap ?t)\<rparr>)"
      using assms(2) u by (rule Free_inUse)
    have h: "heap (snd (Free s i)) = (heap ?t)[a := (heap s ! a)\<lparr>tok_state := free\<rparr>]"
      by (simp add: f setState_def ha)
    have nth: "\<And>b. heap (snd (Free s i)) ! b =
        (if b = a then (heap s ! a)\<lparr>tok_state := free\<rparr> else heap ?t ! b)"
      using a(1) l by (simp add: h nth_list_update)
    have n: "a \<notin> set (closedOf s i)" using w assms(2) u by (simp add: wf_own_closure)
    have c1: "tok_state (heap (snd (Free s i)) ! a) = free" by (simp add: nth)
    have c2: "\<forall>c \<in> set (closedOf s i). tok_state (heap (snd (Free s i)) ! c) = free"
      using st(3) n by (auto simp: nth)
    have c3: "closedTokens (snd (Free s i)) = (closedTokens s)(i := None)"
      using st(4) by (simp add: f)
    have c4: "\<forall>b. b \<noteq> a \<longrightarrow> b \<notin> set (closedOf s i) \<longrightarrow>
        heap (snd (Free s i)) ! b = heap s ! b"
      using st(5) by (simp add: nth)
    from st(2) h c1 c2 c3 c4
    show "tok_state (heap ?t ! a) = allocated \<and>
       heap (snd (Free s i)) = (heap ?t)[a := (heap s ! a)\<lparr>tok_state := free\<rparr>] \<and>
       tok_state (heap (snd (Free s i)) ! a) = free \<and>
       (\<forall>c \<in> set (closedOf s i). tok_state (heap (snd (Free s i)) ! c) = free) \<and>
       closedTokens (snd (Free s i)) = (closedTokens s)(i := None) \<and>
       (\<forall>b. b \<noteq> a \<longrightarrow> b \<notin> set (closedOf s i) \<longrightarrow> heap (snd (Free s i)) ! b = heap s ! b)"
      by blast
  qed
  have 3: "tok_state (heap s ! a) = closed \<longrightarrow> Free s i = (None, s)"
    using assms(2) wf_touched[OF w assms(2)]
    by (simp add: Free_def find_tok_def)
  show ?thesis unfolding Let_def using 0 1 2 3 by blast
qed

text \<open>
  The three rows in the example pool after \<open>Use t [d/a, d/b]\<close>: \<open>tt\<close> is free, \<open>t\<close> is in
  use, \<open>ttt\<close> is closed.
\<close>

theorem C4_Free_witness:
  "tokens used22 ''tt'' = Some 1 \<and> tok_state (heap used22 ! 1) = free \<and>
   fst (Free used22 ''tt'') = None \<and>
   tok_state (heap (snd (Free used22 ''tt'')) ! 1) = free \<and>
   tokens used22 ''t'' = Some 0 \<and> tok_state (heap used22 ! 0) = inUse \<and>
   closedOf used22 ''t'' = [2] \<and>
   fst (Free used22 ''t'') = None \<and>
   tok_state (heap (snd (Free used22 ''t'')) ! 0) = free \<and>
   tok_state (heap (snd (Free used22 ''t'')) ! 2) = free \<and>
   closedTokens (snd (Free used22 ''t'')) ''t'' = None \<and>
   tokens used22 ''ttt'' = Some 2 \<and> tok_state (heap used22 ! 2) = closed \<and>
   Free used22 ''ttt'' = (None, used22)"
proof -
  note free = C4_Free [OF used22_run used22_facts(2), unfolded Let_def]
  note used = C4_Free [OF used22_run used22_facts(1), unfolded Let_def]
  note shut = C4_Free [OF used22_run used22_facts(3), unfolded Let_def]
  have 1: "fst (Free used22 ''tt'') = None \<and>
     tok_state (heap (snd (Free used22 ''tt'')) ! 1) = free"
    using free used22_facts(5) unfolding One_nat_def by blast
  have "fst (Free used22 ''t'') = None \<and>
     tok_state (heap (snd (Free used22 ''t'')) ! 0) = free \<and>
     (\<forall>c \<in> set (closedOf used22 ''t''). tok_state (heap (snd (Free used22 ''t'')) ! c) = free) \<and>
     closedTokens (snd (Free used22 ''t'')) = (closedTokens used22)(''t'' := None)"
    using used used22_facts(4) by blast
  then have 2: "fst (Free used22 ''t'') = None \<and>
     tok_state (heap (snd (Free used22 ''t'')) ! 0) = free \<and>
     tok_state (heap (snd (Free used22 ''t'')) ! 2) = free \<and>
     closedTokens (snd (Free used22 ''t'')) ''t'' = None"
    by (simp add: used22_facts(12))
  have 3: "Free used22 ''ttt'' = (None, used22)"
    using shut by (simp add: used22_facts)
  from 1 2 3 show ?thesis by (simp add: used22_facts)
qed

section \<open>Claim C5: StopUsing\<close>

text \<open>
  Claim C5. On a known identifier \<open>StopUsing\<close> succeeds exactly when the token is in
  use. Then the token ends allocated, every token listed in its closure list
  \<open>closedTokens i\<close> ends free, the entry of \<open>i\<close> is removed from \<open>closedTokens\<close>, and
  no other token, identifier, name or index changes. In any other state the call
  fails with the error "token is not in use" and only sets the dirty flag.
\<close>

theorem C5_StopUsing:
  assumes "s = run (NewPool pathJoin newTokenID cfg) calls" and "tokens s i = Some a"
  shows "let s' = snd (StopUsing s i) in
    (fst (StopUsing s i) = None \<longleftrightarrow> tok_state (heap s ! a) = inUse) \<and>
    (tok_state (heap s ! a) = inUse \<longrightarrow>
       tok_state (heap s' ! a) = allocated \<and>
       (\<forall>c \<in> set (closedOf s i). tok_state (heap s' ! c) = free) \<and>
       closedTokens s' = (closedTokens s)(i := None) \<and>
       (\<forall>b. b \<noteq> a \<longrightarrow> b \<notin> set (closedOf s i) \<longrightarrow> heap s' ! b = heap s ! b) \<and>
       (\<forall>b. tok_id (heap s' ! b) = tok_id (heap s ! b) \<and>
            tok_name (heap s' ! b) = tok_name (heap s ! b)) \<and>
       tokens s' = tokens s \<and> tokensByNames s' = tokensByNames s) \<and>
    (tok_state (heap s ! a) \<noteq> inUse \<longrightarrow>
       StopUsing s i =
         (Some (TokenIsNotInUse (tok_name (heap s ! a)) i (tok_state (heap s ! a))),
          s\<lparr>dirty := True\<rparr>))"
proof -
  have w: "wf s" using assms(1) by (simp add: wf_run)
  have e: "tok_state (heap s ! a) \<noteq> inUse \<longrightarrow>
       StopUsing s i =
         (Some (TokenIsNotInUse (tok_name (heap s ! a)) i (tok_state (heap s ! a))),
          s\<lparr>dirty := True\<rparr>)"
    using assms(2) wf_tokens_id[OF w assms(2)]
    by (simp add: StopUsing_def stopUsing_notInUse)
  have ok: "tok_state (heap s ! a) = inUse \<longrightarrow> fst (StopUsing s i) = None"
    using stopped(1)[OF w assms(2)] by simp
  have iff: "fst (StopUsing s i) = None \<longleftrightarrow> tok_state (heap s ! a) = inUse"
    using e ok by (cases "tok_state (heap s ! a) = inUse") auto
  show ?thesis
    unfolding Let_def using iff e stopped(2-8)[OF w assms(2)] by blast
qed

text \<open>
  In the example pool after \<open>Use t [d/a, d/b]\<close>: token \<open>t\<close> is in use and has closed
  token 2; token \<open>tt\<close> is free.
\<close>

theorem C5_StopUsing_witness:
  "tokens used22 ''t'' = Some 0 \<and> tok_state (heap used22 ! 0) = inUse \<and>
   closedOf used22 ''t'' = [2] \<and>
   fst (StopUsing used22 ''t'') = None \<and>
   tok_state (heap (snd (StopUsing used22 ''t'')) ! 0) = allocated \<and>
   tok_state (heap (snd (StopUsing used22 ''t'')) ! 2) = free \<and>
   closedTokens (snd (StopUsing used22 ''t'')) ''t'' = None \<and>
   tokens used22 ''tt'' = Some 1 \<and> tok_state (heap used22 ! 1) \<noteq> inUse \<and>
   StopUsing used22 ''tt'' =
     (Some (TokenIsNotInUse ''d/a'' ''tt'' free), used22\<lparr>dirty := True\<rparr>)"
  using C5_StopUsing [OF used22_run used22_facts(1), unfolded Let_def]
    C5_StopUsing [OF used22_run used22_facts(2), unfolded Let_def]
  by (simp add: used22_facts)

section \<open>Claim C6: Restore works on an untouched pool only\<close>

text \<open>
  Claim C6. On a pool built by \<open>NewPool\<close>, \<open>Restore\<close> succeeds exactly when no call other
  than \<open>AddListener\<close> has been made before, that is when none of \<open>Restore\<close>, \<open>Tokens\<close>,
  \<open>Find\<close>, \<open>Allocate\<close>, \<open>Free\<close>, \<open>Use\<close>, \<open>StopUsing\<close> has run, whether it failed or not.
  Otherwise it fails with the error "already accessed" and changes nothing. On success,
  for each entry \<open>(n, ids)\<close> of the given map (its keys are distinct) the first
  \<open>min |ids| |byName n|\<close> tokens of name \<open>n\<close>, in insertion order, get the given
  identifiers and the state allocated and keep their name; every other token is
  unchanged.
\<close>

theorem C6_Restore:
  assumes "s = run (NewPool pathJoin newTokenID cfg) calls"
  shows "(fst (Restore s toks) = None \<longleftrightarrow> list_all isAddListener calls) \<and>
    (\<not> list_all isAddListener calls \<longrightarrow> Restore s toks = (Some AlreadyAccessed, s)) \<and>
    (list_all isAddListener calls \<longrightarrow> distinct (map fst toks) \<longrightarrow>
       (\<forall>(n, ids) \<in> set toks. \<forall>k < min (length ids) (length (byName s n)).
          heap (snd (Restore s toks)) ! (byName s n ! k) =
            (heap s ! (byName s n ! k))\<lparr>tok_id := ids ! k, tok_state := allocated\<rparr>)) \<and>
    (list_all isAddListener calls \<longrightarrow>
       (\<forall>b. (\<forall>(n, ids) \<in> set toks. b \<notin> set (take (length ids) (byName s n))) \<longrightarrow>
          heap (snd (Restore s toks)) ! b = heap s ! b))"
proof -
  have d: "dirty s \<longleftrightarrow> \<not> list_all isAddListener calls"
    using assms by (simp add: dirty_run_NewPool)
  have w: "wf s" using assms by (simp add: wf_run)
  have 1: "fst (Restore s toks) = None \<longleftrightarrow> list_all isAddListener calls"
    using d by (simp add: Restore_def)
  have 2: "\<not> list_all isAddListener calls \<longrightarrow> Restore s toks = (Some AlreadyAccessed, s)"
    using d by (simp add: Restore_def)
  have 3: "list_all isAddListener calls \<longrightarrow> distinct (map fst toks) \<longrightarrow>
       (\<forall>(n, ids) \<in> set toks. \<forall>k < min (length ids) (length (byName s n)).
          heap (snd (Restore s toks)) ! (byName s n ! k) =
            (heap s ! (byName s n ! k))\<lparr>tok_id := ids ! k, tok_state := allocated\<rparr>)"
  proof (intro impI ballI allI, clarify)
    fix n ids k
    assume a: "list_all isAddListener calls" "distinct (map fst toks)" "(n, ids) \<in> set toks"
      "k < min (length ids) (length (byName s n))"
    then obtain ts where ts: "tokensByNames s n = Some ts"
      by (cases "tokensByNames s n") (auto simp: byName_def)
    let ?s = "s\<lparr>dirty := True\<rparr>"
    have "inv_names ?s" using w by (simp add: wf_def inv_names_def)
    then have "heap (fold restoreName toks ?s) ! (ts ! k) =
        (heap ?s ! (ts ! k))\<lparr>tok_id := ids ! k, tok_state := allocated\<rparr>"
      using a ts by (intro fold_restoreName_nth[where n = n]) (simp_all add: byName_def)
    then show "heap (snd (Restore s toks)) ! (byName s n ! k) =
        (heap s ! (byName s n ! k))\<lparr>tok_id := ids ! k, tok_state := allocated\<rparr>"
      using a(1) d ts by (simp add: Restore_def byName_def)
  qed
  have 4: "list_all isAddListener calls \<longrightarrow>
       (\<forall>b. (\<forall>(n, ids) \<in> set toks. b \<notin> set (take (length ids) (byName s n))) \<longrightarrow>
          heap (snd (Restore s toks)) ! b = heap s ! b)"
  proof (intro impI allI)
    fix b
    assume a: "list_all isAddListener calls"
      "\<forall>(n, ids) \<in> set toks. b \<notin> set (take (length ids) (byName s n))"
    let ?s = "s\<lparr>dirty := True\<rparr>"
    have "\<forall>e \<in> set toks. b \<notin> set (take (length (snd e)) (byName ?s (fst e)))"
      using a(2) by (auto simp: byName_def)
    then have "heap (fold restoreName toks ?s) ! b = heap ?s ! b"
      by (rule fold_restoreName_untouched)
    then show "heap (snd (Restore s toks)) ! b = heap s ! b"
      using a(1) d by (simp add: Restore_def)
  qed
  from 1 2 3 4 show ?thesis by blast
qed

text \<open>
  The example pool after one \<open>AddListener\<close>: three identifiers for the two tokens of
  \<open>d/a\<close> and one for an unknown name; and the same pool after a failed \<open>Find\<close>.
\<close>

theorem C6_Restore_witness:
  "list_all isAddListener [CallAddListener 7] \<and>
   distinct (map fst [(''d/a'', [''X'', ''Y'', ''Z'']), (''e/a'', [''Q''])]) \<and>
   fst (Restore (run pool22 [CallAddListener 7])
          [(''d/a'', [''X'', ''Y'', ''Z'']), (''e/a'', [''Q''])]) = None \<and>
   heap (snd (Restore (run pool22 [CallAddListener 7])
          [(''d/a'', [''X'', ''Y'', ''Z'']), (''e/a'', [''Q''])])) ! 1 =
     \<lparr>tok_id = ''Y'', tok_name = ''d/a'', tok_state = allocated\<rparr> \<and>
   heap (snd (Restore (run pool22 [CallAddListener 7])
          [(''d/a'', [''X'', ''Y'', ''Z'']), (''e/a'', [''Q''])])) ! 2 =
     \<lparr>tok_id = ''ttt'', tok_name = ''d/b'', tok_state = free\<rparr> \<and>
   \<not> list_all isAddListener [CallFind ''x'', CallAddListener 7] \<and>
   Restore (run pool22 [CallFind ''x'', CallAddListener 7]) [(''d/a'', [''X''])] =
     (Some AlreadyAccessed, run pool22 [CallFind ''x'', CallAddListener 7])"
proof -
  let ?s = "run pool22 [CallAddListener 7]"
  let ?toks = "[(''d/a'', [''X'', ''Y'', ''Z'']), (''e/a'', [''Q''])]"
  have l: "list_all isAddListener [CallAddListener 7]"
    "\<not> list_all isAddListener [CallFind ''x'', CallAddListener 7]"
    by (simp_all add: isAddListener_def)
  have d: "distinct (map fst ?toks)" by simp
  have b: "byName ?s ''d/a'' = [0, 1]" "byName ?s ''e/a'' = []"
    unfolding listening22_eval by (simp_all add: pool22_eval byName_def)
  have h: "heap ?s ! Suc 0 = \<lparr>tok_id = ''tt'', tok_name = ''d/a'', tok_state = free\<rparr>"
    "heap ?s ! 2 = \<lparr>tok_id = ''ttt'', tok_name = ''d/b'', tok_state = free\<rparr>"
    unfolding listening22_eval by (simp_all add: pool22_eval)
  note ok = C6_Restore [of ?s pathJoin2 tokenIDs cfg22 "[CallAddListener 7]" ?toks]
  note bad = C6_Restore [of "run pool22 [CallFind ''x'', CallAddListener 7]" pathJoin2 tokenIDs
      cfg22 "[CallFind ''x'', CallAddListener 7]" "[(''d/a'', [''X''])]"]
  have 1: "fst (Restore ?s ?toks) = None"
    using ok l by (simp add: pool22_def)
  have "(''d/a'', [''X'', ''Y'', ''Z'']) \<in> set ?toks" by simp
  moreover have "1 < min (length [''X'', ''Y'', ''Z'']) (length (byName ?s ''d/a''))"
    by (simp add: b)
  ultimately have "heap (snd (Restore ?s ?toks)) ! (byName ?s ''d/a'' ! 1) =
      (heap ?s ! (byName ?s ''d/a'' ! 1))\<lparr>tok_id := [''X'', ''Y'', ''Z''] ! 1, tok_state := allocated\<rparr>"
    using ok l(1) d unfolding pool22_def by blast
  then have 2: "heap (snd (Restore ?s ?toks)) ! 1 =
      \<lparr>tok_id = ''Y'', tok_name = ''d/a'', tok_state = allocated\<rparr>"
    by (simp add: b h)
  have "\<forall>(n, ids) \<in> set ?toks. 2 \<notin> set (take (length ids) (byName ?s n))"
    by (simp add: b)
  then have "heap (snd (Restore ?s ?toks)) ! 2 = heap ?s ! 2"
    using ok l(1) unfolding pool22_def by blast
  then have 3: "heap (snd (Restore ?s ?toks)) ! 2 =
      \<lparr>tok_id = ''ttt'', tok_name = ''d/b'', tok_state = free\<rparr>"
    by (simp add: h)
  have 4: "Restore (run pool22 [CallFind ''x'', CallAddListener 7]) [(''d/a'', [''X''])] =
     (Some AlreadyAccessed, run pool22 [CallFind ''x'', CallAddListener 7])"
    using bad l(2) unfolding pool22_def by blast
  from l d 1 2 3 4 show ?thesis by blast
qed

section \<open>Claim C7: Use followed by StopUsing\<close>

text \<open>
  Claim C7. For a free or allocated token of a reachable pool and any list of names,
  \<open>Use\<close> succeeds and the \<open>StopUsing\<close> that follows succeeds too. Afterwards the token is
  allocated, whether it was free or allocated before; every token that \<open>Use\<close> put in the
  closure list of the token is free, whether it was free or allocated before; the
  closure lists are as before \<open>Use\<close>, with no entry for the token; and every other
  token is unchanged.
\<close>

theorem C7_Use_StopUsing:
  assumes "s = run (NewPool pathJoin newTokenID cfg) calls" and "tokens s i = Some a"
    and "tok_state (heap s ! a) = free \<or> tok_state (heap s ! a) = allocated"
  shows "let s1 = snd (Use s i names); s2 = snd (StopUsing s1 i) in
     fst (Use s i names) = None \<and> fst (StopUsing s1 i) = None \<and>
     tok_state (heap s1 ! a) = inUse \<and>
     heap s2 ! a = (heap s ! a)\<lparr>tok_state := allocated\<rparr> \<and>
     (\<forall>c \<in> set (closedOf s1 i).
        (tok_state (heap s ! c) = free \<or> tok_state (heap s ! c) = allocated) \<and>
        tok_state (heap s1 ! c) = closed \<and>
        heap s2 ! c = (heap s ! c)\<lparr>tok_state := free\<rparr>) \<and>
     closedTokens s2 i = None \<and> closedTokens s2 = closedTokens s \<and>
     (\<forall>b. b \<noteq> a \<longrightarrow> b \<notin> set (closedOf s1 i) \<longrightarrow> heap s2 ! b = heap s ! b)"
proof -
  let ?s1 = "snd (Use s i names)"
  let ?s2 = "snd (StopUsing ?s1 i)"
  have w: "wf s" using assms(1) by (simp add: wf_run)
  note u = used[OF w assms(2,3), of names]
  have t1: "tokens ?s1 i = Some a" using assms(2) u(3) by simp
  have i1: "tok_state (heap ?s1 ! a) = inUse" using u(6) by simp
  note st = stopped[OF u(2) t1 i1]
  note sh = StopUsing_heap[OF u(2) t1 i1]
  have 1: "heap ?s2 ! a = (heap s ! a)\<lparr>tok_state := allocated\<rparr>"
    using sh[of a] u(6) by simp
  have 2: "\<forall>c \<in> set (closedOf ?s1 i).
        (tok_state (heap s ! c) = free \<or> tok_state (heap s ! c) = allocated) \<and>
        tok_state (heap ?s1 ! c) = closed \<and>
        heap ?s2 ! c = (heap s ! c)\<lparr>tok_state := free\<rparr>"
  proof
    fix c assume c: "c \<in> set (closedOf ?s1 i)"
    with u(7) have "c \<noteq> a" "tok_state (heap s ! c) = free \<or> tok_state (heap s ! c) = allocated"
      "heap ?s1 ! c = (heap s ! c)\<lparr>tok_state := closed\<rparr>" by auto
    then show "(tok_state (heap s ! c) = free \<or> tok_state (heap s ! c) = allocated) \<and>
        tok_state (heap ?s1 ! c) = closed \<and>
        heap ?s2 ! c = (heap s ! c)\<lparr>tok_state := free\<rparr>"
      using sh[of c] c by simp
  qed
  have 3: "closedTokens ?s2 i = None" using st(4) by simp
  have 4: "closedTokens ?s2 = closedTokens s"
  proof (rule ext)
    fix k
    show "closedTokens ?s2 k = closedTokens s k"
      using st(4) u(9) wf_no_closure[OF w assms(2)] assms(3) by (cases "k = i") auto
  qed
  have 5: "\<forall>b. b \<noteq> a \<longrightarrow> b \<notin> set (closedOf ?s1 i) \<longrightarrow> heap ?s2 ! b = heap s ! b"
    using sh u(8) by simp
  show ?thesis
    unfolding Let_def using u(1) st(1) i1 1 2 3 4 5 by blast
qed

text \<open>
  In the example pool with both tokens of \<open>d/b\<close> allocated, token \<open>t\<close> is free and
  \<open>Use t [d/a, d/b]\<close> closes the allocated token 2: after \<open>StopUsing\<close> the former is
  allocated and the latter free.
\<close>

theorem C7_Use_StopUsing_witness:
  "tokens granted22 ''t'' = Some 0 \<and>
   tok_state (heap granted22 ! 0) = free \<and> tok_state (heap granted22 ! 2) = allocated \<and>
   closedOf (snd (Use granted22 ''t'' [''d/a'', ''d/b''])) ''t'' = [2] \<and>
   fst (Use granted22 ''t'' [''d/a'', ''d/b'']) = None \<and>
   fst (StopUsing (snd (Use granted22 ''t'' [''d/a'', ''d/b''])) ''t'') = None \<and>
   tok_state (heap (snd (Use granted22 ''t'' [''d/a'', ''d/b''])) ! 2) = closed \<and>
   tok_state (heap (snd (StopUsing (snd (Use granted22 ''t'' [''d/a'', ''d/b''])) ''t'')) ! 0)
     = allocated \<and>
   tok_state (heap (snd (StopUsing (snd (Use granted22 ''t'' [''d/a'', ''d/b''])) ''t'')) ! 2)
     = free \<and>
   closedTokens (snd (StopUsing (snd (Use granted22 ''t'' [''d/a'', ''d/b''])) ''t'')) ''t''
     = None"
proof -
  have f: "tok_state (heap granted22 ! 0) = free \<or> tok_state (heap granted22 ! 0) = allocated"
    by (simp add: granted22_facts)
  note rt = C7_Use_StopUsing [OF granted22_run granted22_facts(1) f,
      of "[''d/a'', ''d/b'']", unfolded Let_def granted22_facts(4)]
  from rt show ?thesis by (simp add: granted22_facts)
qed

section \<open>Claim C8: the token client releases the token of a new connection on error\<close>

text \<open>
  Claim C8. When the request carries the \<open>sriovToken\<close> label, \<open>assign\<close> yields a token
  identifier and the rest of the chain returns an error, \<open>Request\<close> returns that error,
  and it has called \<open>release\<close> (on the connection of the request it sent) exactly when
  \<open>get\<close> returned the empty string for the connection before \<open>assign\<close> was called.
  \<open>Close\<close> always calls \<open>release\<close>.
\<close>

theorem C8_release_on_error:
  assumes "GetLabels (req_connection request) = Some labels"
    and "labels sriovTokenLabel = Some tokenName"
    and "cfg_assign config c tokenName (req_connection request) = (tokenID, c1)"
    and "tokenID \<noteq> ''''"
    and "next (translate tokenName tokenID request) = (request', conn, Some err)"
  shows "Request config next c request =
      (if cfg_get config c (req_connection request) = ''''
       then cfg_release config c1 (req_connection request') else c1,
       Returns conn (Some (Downstream err))) \<and>
    fst (Close config nextClose c conn') = cfg_release config c conn'"
  using assms by (simp add: Request_def afterNext_def Close_def Let_def)

text \<open>
  With the example store: a new connection, whose entry \<open>assign\<close> creates and \<open>release\<close>
  deletes again, and an established one, whose entry survives the failed request and is
  deleted by \<open>Close\<close>.
\<close>

theorem C8_release_on_error_witness:
  "fst (Request mapConfig refusing Map.empty request1) = Map.empty \<and>
   cfg_get mapConfig Map.empty (req_connection request1) = '''' \<and>
   fst (cfg_assign mapConfig Map.empty ''d/a'' (req_connection request1)) = ''id-d/a'' \<and>
   fst (Request mapConfig refusing [''c1'' \<mapsto> ''id-7''] request1) = [''c1'' \<mapsto> ''id-7''] \<and>
   cfg_get mapConfig [''c1'' \<mapsto> ''id-7''] (req_connection request1) = ''id-7'' \<and>
   fst (Close mapConfig (\<lambda>conn. ()) [''c1'' \<mapsto> ''id-7''] (req_connection request1)) = Map.empty"
proof -
  have l: "GetLabels (req_connection request1) = Some [sriovTokenLabel \<mapsto> ''d/a'']"
    "[sriovTokenLabel \<mapsto> ''d/a''] sriovTokenLabel = Some ''d/a''"
    by (simp_all add: request1_def GetLabels_def)
  have g: "cfg_get mapConfig Map.empty (req_connection request1) = ''''"
    "cfg_get mapConfig [''c1'' \<mapsto> ''id-7''] (req_connection request1) = ''id-7''"
    by (simp_all add: mapConfig_def request1_def)
  have a: "cfg_assign mapConfig Map.empty ''d/a'' (req_connection request1) =
      (''id-d/a'', [''c1'' \<mapsto> ''id-d/a''])"
    "cfg_assign mapConfig [''c1'' \<mapsto> ''id-7''] ''d/a'' (req_connection request1) =
      (''id-7'', [''c1'' \<mapsto> ''id-7''])"
    by (simp_all add: mapConfig_def request1_def)
  have r: "refusing (translate ''d/a'' ''id-d/a'' request1) =
      (translate ''d/a'' ''id-d/a'' request1, None, Some ''refused'')"
    "refusing (translate ''d/a'' ''id-7'' request1) =
      (translate ''d/a'' ''id-7'' request1, None, Some ''refused'')"
    by (simp_all add: refusing_def)
  have rel: "cfg_release mapConfig [''c1'' \<mapsto> ''id-d/a'']
      (req_connection (translate ''d/a'' ''id-d/a'' request1)) = Map.empty"
    "cfg_release mapConfig [''c1'' \<mapsto> ''id-7''] (req_connection request1) = Map.empty"
    by (simp_all add: mapConfig_def translate_def request1_def)
  note new = C8_release_on_error [of request1 "[sriovTokenLabel \<mapsto> ''d/a'']" "''d/a''"
      mapConfig Map.empty "''id-d/a''" "[''c1'' \<mapsto> ''id-d/a'']" refusing
      "translate ''d/a'' ''id-d/a'' request1" None "''refused''" "\<lambda>conn. ()"
      "req_connection request1", OF l a(1) _ r(1)]
  note old = C8_release_on_error [of request1 "[sriovTokenLabel \<mapsto> ''d/a'']" "''d/a''"
      mapConfig "[''c1'' \<mapsto> ''id-7'']" "''id-7''" "[''c1'' \<mapsto> ''id-7'']" refusing
      "translate ''d/a'' ''id-7'' request1" None "''refused''" "\<lambda>conn. ()"
      "req_connection request1", OF l a(2) _ r(2)]
  have 1: "fst (Request mapConfig refusing Map.empty request1) = Map.empty"
    using new by (simp add: g rel)
  have 2: "fst (Request mapConfig refusing [''c1'' \<mapsto> ''id-7''] request1) = [''c1'' \<mapsto> ''id-7'']"
    using old by (simp add: g)
  have 3: "fst (Close mapConfig (\<lambda>conn. ()) [''c1'' \<mapsto> ''id-7''] (req_connection request1)) = Map.empty"
    using old by (simp add: rel)
  from 1 2 3 g a show ?thesis by simp
qed

section \<open>Claim C9: a failing call changes nothing but the dirty flag\<close>

text \<open>
  Claim C9. Whenever \<open>Find\<close>, \<open>Allocate\<close>, \<open>Free\<close>, \<open>Use\<close> or \<open>StopUsing\<close> returns an error,
  the pool after the call is the pool before it with the dirty flag set: no token, no
  index and no closure list has changed. The flag stays set whatever is called next, so
  every later \<open>Restore\<close> fails and changes nothing.
\<close>

theorem C9_error_atomicity:
  "(fst (Find s i) = Inl e \<longrightarrow> snd (Find s i) = s\<lparr>dirty := True\<rparr>) \<and>
   (fst (Allocate s i) = Some e \<longrightarrow> snd (Allocate s i) = s\<lparr>dirty := True\<rparr>) \<and>
   (fst (Free s i) = Some e \<longrightarrow> snd (Free s i) = s\<lparr>dirty := True\<rparr>) \<and>
   (fst (Use s i names) = Some e \<longrightarrow> snd (Use s i names) = s\<lparr>dirty := True\<rparr>) \<and>
   (fst (StopUsing s i) = Some e \<longrightarrow> snd (StopUsing s i) = s\<lparr>dirty := True\<rparr>) \<and>
   Restore (run (s\<lparr>dirty := True\<rparr>) calls) toks =
     (Some AlreadyAccessed, run (s\<lparr>dirty := True\<rparr>) calls)"
proof -
  have 1: "fst (Find s i) = Inl e \<longrightarrow> snd (Find s i) = s\<lparr>dirty := True\<rparr>"
    by (simp add: Find_def Let_def split: sum.splits)
  have 2: "fst (Allocate s i) = Some e \<longrightarrow> snd (Allocate s i) = s\<lparr>dirty := True\<rparr>"
    by (auto simp: Allocate_def stopUsing_def find_tok_def Let_def
        split: sum.splits state.splits option.splits)
  have 3: "fst (Free s i) = Some e \<longrightarrow> snd (Free s i) = s\<lparr>dirty := True\<rparr>"
    by (auto simp: Free_def find_tok_def Let_def split: sum.splits state.splits option.splits)
  have 4: "fst (Use s i names) = Some e \<longrightarrow> snd (Use s i names) = s\<lparr>dirty := True\<rparr>"
    by (auto simp: Use_def Let_def split: sum.splits)
  have 5: "fst (StopUsing s i) = Some e \<longrightarrow> snd (StopUsing s i) = s\<lparr>dirty := True\<rparr>"
    by (auto simp: StopUsing_def stopUsing_def Let_def split: sum.splits if_splits)
  have 6: "Restore (run (s\<lparr>dirty := True\<rparr>) calls) toks =
     (Some AlreadyAccessed, run (s\<lparr>dirty := True\<rparr>) calls)"
    by (rule Restore_dirty) (simp add: dirty_run)
  from 1 2 3 4 5 6 show ?thesis by blast
qed

text \<open>
  In the example pool after \<open>Use t [d/a, d/b]\<close>: an unknown identifier, \<open>Allocate\<close> on a
  closed token, \<open>Use\<close> on a token in use and \<open>StopUsing\<close> on a free token.
\<close>

theorem C9_error_atomicity_witness:
  "fst (Find used22 ''x'') = Inl (TokenDoesntExist ''x'') \<and>
   snd (Find used22 ''x'') = used22\<lparr>dirty := True\<rparr> \<and>
   fst (Allocate used22 ''ttt'') = Some (TokenIsClosed ''d/b'' ''ttt'') \<and>
   snd (Allocate used22 ''ttt'') = used22\<lparr>dirty := True\<rparr> \<and>
   fst (Free used22 ''x'') = Some (TokenDoesntExist ''x'') \<and>
   snd (Free used22 ''x'') = used22\<lparr>dirty := True\<rparr> \<and>
   fst (Use used22 ''t'' [''d/a'', ''d/b'']) = Some (TokenIs inUse ''d/a'' ''t'') \<and>
   snd (Use used22 ''t'' [''d/a'', ''d/b'']) = used22\<lparr>dirty := True\<rparr> \<and>
   fst (StopUsing used22 ''tt'') = Some (TokenIsNotInUse ''d/a'' ''tt'' free) \<and>
   snd (StopUsing used22 ''tt'') = used22\<lparr>dirty := True\<rparr>"
proof -
  have f: "fst (Find used22 ''x'') = Inl (TokenDoesntExist ''x'')"
    by (simp add: used22_eval Find_def find_tok_def)
  have a: "fst (Allocate used22 ''ttt'') = Some (TokenIsClosed ''d/b'' ''ttt'')"
    by (simp add: used22_eval Allocate_def find_tok_def)
  have r: "fst (Free used22 ''x'') = Some (TokenDoesntExist ''x'')"
    by (simp add: used22_eval Free_def find_tok_def)
  have u: "fst (Use used22 ''t'' [''d/a'', ''d/b'']) = Some (TokenIs inUse ''d/a'' ''t'')"
    by (simp add: used22_eval Use_def find_tok_def)
  have t: "fst (StopUsing used22 ''tt'') = Some (TokenIsNotInUse ''d/a'' ''tt'' free)"
    by (simp add: used22_eval StopUsing_def stopUsing_def find_tok_def)
  show ?thesis
    using f a r u t
      C9_error_atomicity [of used22 "''x''" "TokenDoesntExist ''x''"]
      C9_error_atomicity [of used22 "''ttt''" "TokenIsClosed ''d/b'' ''ttt''"]
      C9_error_atomicity [of used22 "''t''" "TokenIs inUse ''d/a'' ''t''" "[''d/a'', ''d/b'']"]
      C9_error_atomicity [of used22 "''tt''" "TokenIsNotInUse ''d/a'' ''tt'' free"]
    by simp
qed

section \<open>Claim C10: AddListener touches the listeners only\<close>

text \<open>
  Claim C10. \<open>AddListener\<close> appends the listener and changes no other field of the
  pool, the dirty flag included; so \<open>Restore\<close> still succeeds on a new pool after any
  number of \<open>AddListener\<close> calls.
\<close>

theorem C10_AddListener_frame:
  "heap (AddListener s l) = heap s \<and> tokens (AddListener s l) = tokens s \<and>
   tokensByNames (AddListener s l) = tokensByNames s \<and>
   closedTokens (AddListener s l) = closedTokens s \<and>
   dirty (AddListener s l) = dirty s \<and> spawned (AddListener s l) = spawned s \<and>
   listeners (AddListener s l) = listeners s @ [l] \<and>
   fst (Restore (run (NewPool pathJoin newTokenID cfg) (map CallAddListener ls)) toks) = None"
proof -
  have "list_all isAddListener (map CallAddListener ls)"
    by (simp add: list_all_iff isAddListener_def)
  then have "\<not> dirty (run (NewPool pathJoin newTokenID cfg) (map CallAddListener ls))"
    by (simp add: dirty_run_NewPool)
  then show ?thesis by (simp add: AddListener_def Restore_def)
qed

end
